theory Spec2Isabelle
  imports Main "HOL-Library.Word" "HOL-Library.Monad_Syntax" "HOL-Library.Multiset"
begin

section \<open>The SPSC ring buffer (ring\_buffer.cpp)\<close>

text \<open>
  The ring buffer does not own its storage: \<open>m_buf\<close> points at \<open>m_capacity\<close> bytes of the
  caller. The model keeps those bytes in the state as a list of length \<open>m_capacity\<close>. The
  indices are \<open>uint32_t\<close> values and are modelled as 32-bit words, so that every addition
  and subtraction wraps as in the source. The atomics are read and written by one thread
  at a time in this model (sequential semantics); \<open>m_initialized\<close> and the padding fields
  play no part in any operation modelled here and are left out.

  Memory that belongs to the caller (\<open>input\<close> of the write functions, \<open>output\<close> of
  \<open>read\<close>) is a function from byte offsets to bytes, the offset counted from the
  pointer passed; a null pointer is \<open>None\<close>.
\<close>

type_synonym u8 = "8 word"
type_synonym u32 = "32 word"
type_synonym memory = "nat \<Rightarrow> u8"

record spsc_ringbuffer =
  m_buf :: "u8 list"
  m_capacity :: u32
  m_writable_capacity :: u32
  m_read_index :: u32
  m_write_index :: u32

text \<open>\<open>spsc_ringbuffer(unsigned char *buf, uint32_t capacity)\<close>.\<close>

definition spsc_ringbuffer_init :: "u8 list \<Rightarrow> u32 \<Rightarrow> spsc_ringbuffer" where
  "spsc_ringbuffer_init buf capacity =
     \<lparr> m_buf = buf,
       m_capacity = capacity,
       m_writable_capacity = (if capacity > 0 then capacity - 1 else 0),
       m_read_index = 0,
       m_write_index = 0 \<rparr>"

text \<open>
  \<open>std::memcpy(&m_buf[doff], src + soff, n)\<close>: \<open>n\<close> bytes of caller memory are copied
  into the ring buffer's storage. The call is in range when \<open>doff + n \<le> length dst\<close>;
  the operations below only call it in range on well-formed buffers
  (lemma \<open>priv_write_props\<close>).
\<close>

definition memcpy_in :: "u8 list \<Rightarrow> nat \<Rightarrow> memory \<Rightarrow> nat \<Rightarrow> nat \<Rightarrow> u8 list" where
  "memcpy_in dst doff src soff n =
     take doff dst @ map (\<lambda>i. src (soff + i)) [0..<n] @ drop (doff + n) dst"

text \<open>\<open>std::memcpy(output + doff, &m_buf[soff], n)\<close>: bytes leave the ring buffer.\<close>

definition memcpy_out :: "memory \<Rightarrow> nat \<Rightarrow> u8 list \<Rightarrow> nat \<Rightarrow> nat \<Rightarrow> memory" where
  "memcpy_out dst doff src soff n =
     (\<lambda>i. if doff \<le> i \<and> i < doff + n then src ! (soff + (i - doff)) else dst i)"

definition get_bytes_written :: "spsc_ringbuffer \<Rightarrow> u32 \<Rightarrow> u32 \<Rightarrow> u32" where
  "get_bytes_written rb write_index read_index =
     (if write_index \<ge> read_index then write_index - read_index
      else (m_writable_capacity rb - read_index + 1) + write_index)"

definition approx_size :: "spsc_ringbuffer \<Rightarrow> u32" where
  "approx_size rb = get_bytes_written rb (m_write_index rb) (m_read_index rb)"

text \<open>
  \<open>priv_write\<close> returns the new storage together with the source ranges
  \<open>(offset, count)\<close> of \<open>input\<close> that its \<open>memcpy\<close> calls read, in call order.
\<close>

definition priv_write ::
  "spsc_ringbuffer \<Rightarrow> memory \<Rightarrow> u32 \<Rightarrow> u32 \<Rightarrow> u32 \<Rightarrow> u8 list \<times> (nat \<times> nat) list" where
  "priv_write rb input amt_bytes_to_write write_index read_index =
     (if write_index \<ge> read_index then
        (let until_end_of_buffer = m_writable_capacity rb - write_index + 1;
             from_beginning_of_buffer =
               (if until_end_of_buffer > amt_bytes_to_write then 0
                else amt_bytes_to_write - until_end_of_buffer);
             buf1 = memcpy_in (m_buf rb) (unat write_index) input 0 (unat until_end_of_buffer);
             buf2 = memcpy_in buf1 0 input (unat until_end_of_buffer)
                      (unat from_beginning_of_buffer)
         in (buf2, [(0, unat until_end_of_buffer),
                    (unat until_end_of_buffer, unat from_beginning_of_buffer)]))
      else
        (memcpy_in (m_buf rb) (unat write_index) input 0 (unat amt_bytes_to_write),
         [(0, unat amt_bytes_to_write)]))"

text \<open>
  \<open>write_bytes\<close> and \<open>write\<close> (here \<open>write_rb\<close>, since \<open>write\<close> is an Isar keyword)
  return their result, the buffer afterwards and the
  ranges of \<open>input\<close> that were read.
\<close>

definition write_bytes ::
  "spsc_ringbuffer \<Rightarrow> memory option \<Rightarrow> u32 \<Rightarrow> u32 \<times> spsc_ringbuffer \<times> (nat \<times> nat) list" where
  "write_bytes rb input sz0 =
     (case input of
        None \<Rightarrow> (0, rb, [])
      | Some inp \<Rightarrow>
          (let sz = (if sz0 > m_writable_capacity rb then m_writable_capacity rb else sz0)
           in if sz = 0 then (0, rb, [])
              else
                (let write_index = m_write_index rb;
                     read_index = m_read_index rb;
                     bytes_written = get_bytes_written rb write_index read_index;
                     space_left = m_writable_capacity rb - bytes_written;
                     amt_bytes_to_write = min sz space_left;
                     (buf, reads) = priv_write rb inp amt_bytes_to_write write_index read_index
                 in (amt_bytes_to_write,
                     rb\<lparr> m_buf := buf,
                         m_write_index := (write_index + sz) mod m_capacity rb \<rparr>,
                     reads))))"

definition write_rb ::
  "spsc_ringbuffer \<Rightarrow> memory option \<Rightarrow> u32 \<Rightarrow> bool \<times> spsc_ringbuffer \<times> (nat \<times> nat) list" where
  "write_rb rb input sz =
     (if sz > m_writable_capacity rb then (False, rb, [])
      else if sz = 0 then (True, rb, [])
      else
        (case input of
           None \<Rightarrow> (False, rb, [])
         | Some inp \<Rightarrow>
             (let write_index = m_write_index rb;
                  read_index = m_read_index rb;
                  bytes_written = get_bytes_written rb write_index read_index;
                  space_left = m_writable_capacity rb - bytes_written
              in if sz > space_left then (False, rb, [])
                 else
                   (let amt_bytes_to_write = min sz space_left;
                        (buf, reads) =
                          priv_write rb inp amt_bytes_to_write write_index read_index
                    in (True,
                        rb\<lparr> m_buf := buf,
                            m_write_index := (write_index + sz) mod m_capacity rb \<rparr>,
                        reads)))))"

text \<open>\<open>read\<close> returns the byte count, the buffer afterwards and the caller's \<open>output\<close>.\<close>

definition read ::
  "spsc_ringbuffer \<Rightarrow> memory option \<Rightarrow> u32 \<Rightarrow> u32 \<times> spsc_ringbuffer \<times> memory option" where
  "read rb output max_read0 =
     (case output of
        None \<Rightarrow> (0, rb, None)
      | Some out \<Rightarrow>
          (let max_read =
                 (if max_read0 > m_writable_capacity rb then m_writable_capacity rb
                  else max_read0)
           in if max_read = 0 then (0, rb, Some out)
              else
                (let write_index = m_write_index rb;
                     read_index = m_read_index rb;
                     bytes_written = get_bytes_written rb write_index read_index;
                     amt_bytes_to_read = min max_read bytes_written;
                     out' =
                       (if write_index \<ge> read_index then
                          memcpy_out out 0 (m_buf rb) (unat read_index) (unat amt_bytes_to_read)
                        else
                          (let until_end_of_buffer = m_writable_capacity rb - read_index + 1;
                               from_beginning_of_buffer =
                                 (if until_end_of_buffer > amt_bytes_to_read then 0
                                  else amt_bytes_to_read - until_end_of_buffer);
                               out1 = memcpy_out out 0 (m_buf rb) (unat read_index)
                                        (unat until_end_of_buffer)
                           in memcpy_out out1 (unat until_end_of_buffer) (m_buf rb) 0
                                (unat from_beginning_of_buffer)))
                 in (amt_bytes_to_read,
                     rb\<lparr> m_read_index := (read_index + amt_bytes_to_read) mod m_capacity rb \<rparr>,
                     Some out'))))"

text \<open>
  \<open>alloc_contig(uint32_t *sz, bool *end_of_buffer_ptr)\<close>: the two out-parameters are
  passed in with their values before the call and returned with their values after it.
  The returned pointer \<open>&m_buf[write_index]\<close> is the index into the storage.
\<close>

definition alloc_contig :: "spsc_ringbuffer \<Rightarrow> u32 \<Rightarrow> bool \<Rightarrow> u32 \<times> u32 \<times> bool" where
  "alloc_contig rb sz end_of_buffer_in =
     (let requested_size = sz;
          write_index = m_write_index rb;
          read_index = m_read_index rb;
          (largest_contiguous_block_size, end_of_buffer) =
            (if write_index \<ge> read_index then
               (if read_index \<noteq> 0 then (m_writable_capacity rb - write_index + 1, True)
                else (m_writable_capacity rb - write_index, False))
             else (read_index - write_index - 1, False))
      in if largest_contiguous_block_size < requested_size
         then (write_index, largest_contiguous_block_size, end_of_buffer)
         else (write_index, sz, end_of_buffer_in))"

record alloc_result =
  first_buf :: "u32 option"
  second_buf :: "u32 option"
  first_buf_sz :: u32
  second_buf_sz :: u32
  write_ahead_of_read :: bool

definition compound_alloc_contig :: "spsc_ringbuffer \<Rightarrow> alloc_result" where
  "compound_alloc_contig rb =
     (let write_index = m_write_index rb;
          read_index = m_read_index rb;
          rval = \<lparr> first_buf = None, second_buf = None, first_buf_sz = 0,
                   second_buf_sz = 0, write_ahead_of_read = (write_index \<ge> read_index) \<rparr>;
          bytes_written = get_bytes_written rb write_index read_index;
          free_bytes = m_writable_capacity rb - bytes_written;
          largest_contiguous_block_size =
            (if write_index \<ge> read_index then
               (if read_index \<noteq> 0 then m_writable_capacity rb - write_index + 1
                else m_writable_capacity rb - write_index)
             else read_index - write_index - 1)
      in if largest_contiguous_block_size = 0 then rval
         else
           (let rval1 = rval\<lparr> first_buf := Some write_index,
                               first_buf_sz := largest_contiguous_block_size \<rparr>;
                free_bytes1 = free_bytes - largest_contiguous_block_size
            in if free_bytes1 = 0 then rval1
               else rval1\<lparr> second_buf := Some 0, second_buf_sz := free_bytes1 \<rparr>))"

definition commit_write :: "spsc_ringbuffer \<Rightarrow> u32 \<Rightarrow> spsc_ringbuffer" where
  "commit_write rb sz =
     (if sz = 0 then rb
      else rb\<lparr> m_write_index := (m_write_index rb + sz) mod m_capacity rb \<rparr>)"

definition commit_read :: "spsc_ringbuffer \<Rightarrow> u32 \<Rightarrow> spsc_ringbuffer" where
  "commit_read rb sz =
     (if sz = 0 then rb
      else rb\<lparr> m_read_index := (m_read_index rb + sz) mod m_capacity rb \<rparr>)"

text \<open>
  The state between operations: storage of \<open>m_capacity\<close> bytes, the writable capacity
  set by the constructor, both indices inside the storage.
\<close>

definition rb_wf :: "spsc_ringbuffer \<Rightarrow> bool" where
  "rb_wf rb \<longleftrightarrow>
     length (m_buf rb) = unat (m_capacity rb) \<and>
     0 < m_capacity rb \<and>
     m_writable_capacity rb = m_capacity rb - 1 \<and>
     m_read_index rb < m_capacity rb \<and>
     m_write_index rb < m_capacity rb"

text \<open>
  What a reader will observe: the stored bytes, oldest first, starting at the read index
  and wrapping at the end of the storage.
\<close>

definition rb_contents :: "spsc_ringbuffer \<Rightarrow> u8 list" where
  "rb_contents rb =
     map (\<lambda>i. m_buf rb ! ((unat (m_read_index rb) + i) mod unat (m_capacity rb)))
       [0..<unat (approx_size rb)]"

text \<open>One past the highest offset of \<open>input\<close> that a list of \<open>memcpy\<close> source ranges reads.\<close>

definition input_extent :: "(nat \<times> nat) list \<Rightarrow> nat" where
  "input_extent reads = fold max (map (\<lambda>(off, n). if n = 0 then 0 else off + n) reads) 0"

subsection \<open>Ring buffer scenarios\<close>

text \<open>
  The buffers of the repository's tests (\<open>test/ring_buffer.cpp\<close>): capacity 8 and
  capacity 5, an input of ones, and the states the compound-allocation scenarios pass
  through.
\<close>

definition ones :: memory where
  "ones = (\<lambda>i. 1)"

definition zeros :: memory where
  "zeros = (\<lambda>i. 0)"

definition rb8 :: spsc_ringbuffer where
  "rb8 = spsc_ringbuffer_init (replicate 8 0) 8"

definition rb8_w5 :: spsc_ringbuffer where
  "rb8_w5 = fst (snd (write_rb rb8 (Some ones) 5))"

definition rb8_w5_r5 :: spsc_ringbuffer where
  "rb8_w5_r5 = fst (snd (read rb8_w5 (Some zeros) 5))"

definition rb8_w5_r5_w4 :: spsc_ringbuffer where
  "rb8_w5_r5_w4 = fst (snd (write_rb rb8_w5_r5 (Some ones) 4))"

definition rb8_w5_r3 :: spsc_ringbuffer where
  "rb8_w5_r3 = fst (snd (read rb8_w5 (Some zeros) 3))"

definition rb5 :: spsc_ringbuffer where
  "rb5 = spsc_ringbuffer_init (replicate 5 0) 5"

definition rb5_full_cycle :: spsc_ringbuffer where
  "rb5_full_cycle = commit_read (commit_write rb5 4) 4"

text \<open>
  A buffer of \<open>2^32 - 1\<close> bytes, the largest capacity a \<open>uint32_t\<close> holds, after
  \<open>commit_write(4294967294)\<close> and \<open>commit_read(10)\<close>: ten bytes are free.
\<close>

definition rb_huge :: spsc_ringbuffer where
  "rb_huge = commit_read (commit_write
     (spsc_ringbuffer_init (replicate 4294967295 0) 4294967295) 4294967294) 10"

text \<open>
  The contiguous region as the specification words it (``capacity minus write index, plus
  one extra byte if the read index is positive''), kept apart from \<open>alloc_contig\<close> to be
  compared with it.
\<close>

definition spec_contig_region :: "u32 \<Rightarrow> u32 \<Rightarrow> u32 \<Rightarrow> nat" where
  "spec_contig_region capacity write_index read_index =
     (if write_index \<ge> read_index
      then unat capacity - unat write_index + (if read_index > 0 then 1 else 0)
      else unat read_index - unat write_index - 1)"

section \<open>Reference-counted smart pointers (memory.hpp)\<close>

text \<open>
  A control block holds the payload pointer and the two counters, \<open>uint32_t\<close> atomics
  that one thread at a time updates in this model, so \<open>fetch_add\<close> and \<open>fetch_sub\<close>
  are a read followed by a wrapping write. \<open>m_data\<close> records whether the payload
  pointer is non-null. Two ghost fields count what the claims are about: \<open>dtor_calls\<close>,
  the number of times the payload's destructor has run, and \<open>dealloc_calls\<close>, the
  number of times the block itself was handed to \<open>deallocate\<close>. The allocator pointer
  of a block made by \<open>make_shared\<close> is never null and is left out.
\<close>

record control_blk =
  m_data :: bool
  m_strong_count :: u32
  m_weak_count :: u32
  dtor_calls :: nat
  dealloc_calls :: nat

text \<open>\<open>control_blk(alloc, data)\<close> with a payload.\<close>

definition control_blk_init :: control_blk where
  "control_blk_init =
     \<lparr> m_data = True, m_strong_count = 0, m_weak_count = 0, dtor_calls = 0, dealloc_calls = 0 \<rparr>"

definition deinit :: "control_blk \<Rightarrow> control_blk" where
  "deinit cb =
     (if \<not> m_data cb then cb
      else cb\<lparr> dtor_calls := dtor_calls cb + 1, m_data := False \<rparr>)"

definition inc_strong :: "control_blk \<Rightarrow> control_blk" where
  "inc_strong cb =
     (let prev_strong_count = m_strong_count cb;
          cb1 = cb\<lparr> m_strong_count := prev_strong_count + 1 \<rparr>
      in if prev_strong_count = 0 then cb1\<lparr> m_weak_count := m_weak_count cb1 + 1 \<rparr> else cb1)"

definition inc_weak :: "control_blk \<Rightarrow> control_blk" where
  "inc_weak cb = cb\<lparr> m_weak_count := m_weak_count cb + 1 \<rparr>"

definition dec_weak :: "control_blk \<Rightarrow> bool \<times> control_blk" where
  "dec_weak cb =
     (let prev_val = m_weak_count cb
      in (prev_val = 1, cb\<lparr> m_weak_count := prev_val - 1 \<rparr>))"

definition dec_strong :: "control_blk \<Rightarrow> bool \<times> control_blk" where
  "dec_strong cb =
     (let prev_val = m_strong_count cb;
          cb1 = cb\<lparr> m_strong_count := prev_val - 1 \<rparr>
      in if prev_val = 1 then dec_weak (deinit cb1) else (False, cb1))"

text \<open>\<open>m_alloc->deallocate(m_control_blk)\<close> in the two \<open>reset\<close> functions.\<close>

definition deallocate_blk :: "control_blk \<Rightarrow> control_blk" where
  "deallocate_blk cb = cb\<lparr> dealloc_calls := dealloc_calls cb + 1 \<rparr>"

text \<open>
  A \<open>shared_ptr\<close> or \<open>weak_ptr\<close> object holds a pointer to a control block or null;
  \<open>Dead\<close> marks an object that does not exist (not yet constructed, or destroyed). The
  program state is the list of control blocks ever allocated, indexed by address, and
  the strong and weak handle objects, indexed by their identity.
\<close>

datatype handle = Dead | Null | Ptr nat

record ptr_state =
  blocks :: "control_blk list"
  shared :: "handle list"
  weak :: "handle list"

text \<open>
  Dereferencing a control block pointer: reading a block that was deallocated (or an
  address never allocated) is undefined behaviour, \<open>None\<close> in the model.
\<close>

definition blk_at :: "control_blk list \<Rightarrow> nat \<Rightarrow> control_blk option" where
  "blk_at bs a =
     (if a < length bs \<and> dealloc_calls (bs ! a) = 0 then Some (bs ! a) else None)"

text \<open>
  The constructor bodies \<open>if (m_control_blk) m_control_blk->inc_strong()\<close> and
  \<open>inc_weak()\<close>, and \<open>shared_ptr::reset\<close> and \<open>weak_ptr::reset\<close>.
\<close>

definition shared_acquire :: "control_blk list \<Rightarrow> handle \<Rightarrow> control_blk list option" where
  "shared_acquire bs h =
     (case h of
        Dead \<Rightarrow> None
      | Null \<Rightarrow> Some bs
      | Ptr a \<Rightarrow> (case blk_at bs a of None \<Rightarrow> None | Some cb \<Rightarrow> Some (bs[a := inc_strong cb])))"

definition weak_acquire :: "control_blk list \<Rightarrow> handle \<Rightarrow> control_blk list option" where
  "weak_acquire bs h =
     (case h of
        Dead \<Rightarrow> None
      | Null \<Rightarrow> Some bs
      | Ptr a \<Rightarrow> (case blk_at bs a of None \<Rightarrow> None | Some cb \<Rightarrow> Some (bs[a := inc_weak cb])))"

definition shared_reset :: "control_blk list \<Rightarrow> handle \<Rightarrow> control_blk list option" where
  "shared_reset bs h =
     (case h of
        Dead \<Rightarrow> None
      | Null \<Rightarrow> Some bs
      | Ptr a \<Rightarrow>
          (case blk_at bs a of
             None \<Rightarrow> None
           | Some cb \<Rightarrow>
               (let (dealloc, cb') = dec_strong cb
                in Some (bs[a := (if dealloc then deallocate_blk cb' else cb')]))))"

definition weak_reset :: "control_blk list \<Rightarrow> handle \<Rightarrow> control_blk list option" where
  "weak_reset bs h =
     (case h of
        Dead \<Rightarrow> None
      | Null \<Rightarrow> Some bs
      | Ptr a \<Rightarrow>
          (case blk_at bs a of
             None \<Rightarrow> None
           | Some cb \<Rightarrow>
               (let (dealloc, cb') = dec_weak cb
                in Some (bs[a := (if dealloc then deallocate_blk cb' else cb')]))))"

definition use_count :: "control_blk list \<Rightarrow> handle \<Rightarrow> u32 option" where
  "use_count bs h =
     (case h of
        Dead \<Rightarrow> None
      | Null \<Rightarrow> Some 0
      | Ptr a \<Rightarrow> (case blk_at bs a of None \<Rightarrow> None | Some cb \<Rightarrow> Some (m_strong_count cb)))"

text \<open>
  \<open>live\<close> reads an existing handle object; \<open>new_handle\<close> constructs one in a free
  slot, a destroyed object's or the next unused one.
\<close>

definition live :: "handle list \<Rightarrow> nat \<Rightarrow> handle option" where
  "live hs p = (if p < length hs \<and> hs ! p \<noteq> Dead then Some (hs ! p) else None)"

definition new_handle :: "handle list \<Rightarrow> nat \<Rightarrow> handle \<Rightarrow> handle list option" where
  "new_handle hs p h =
     (if p < length hs then (if hs ! p = Dead then Some (hs[p := h]) else None)
      else if p = length hs then Some (hs @ [h])
      else None)"

text \<open>
  The operations of the two classes. \<open>MakeShared p b d\<close> is \<open>make_shared\<close> with
  the outcomes of its two allocations (control block, payload); \<open>SharedCopy p q\<close> and
  \<open>SharedMove p q\<close> construct \<open>p\<close> from \<open>q\<close>; \<open>SharedAssign\<close> and
  \<open>SharedMoveAssign\<close> are the assignment operators, with their self-assignment
  check; \<open>SharedReset\<close> is \<open>reset()\<close> and assignment of \<open>nullptr\<close>;
  \<open>WeakFromShared\<close> and \<open>WeakAssignShared\<close> take a \<open>shared_ptr\<close>; \<open>WeakLock p w\<close>
  constructs the strong handle \<open>p\<close> from \<open>w.lock()\<close>. A step is \<open>None\<close> when it
  names an object that does not exist, constructs over a live one, or dereferences a
  deallocated control block.
\<close>

datatype ptr_op =
    MakeShared nat bool bool
  | SharedDefault nat
  | SharedCopy nat nat
  | SharedMove nat nat
  | SharedAssign nat nat
  | SharedMoveAssign nat nat
  | SharedReset nat
  | SharedSwap nat nat
  | SharedDtor nat
  | WeakDefault nat
  | WeakFromShared nat nat
  | WeakAssignShared nat nat
  | WeakCopy nat nat
  | WeakMove nat nat
  | WeakAssign nat nat
  | WeakMoveAssign nat nat
  | WeakReset nat
  | WeakSwap nat nat
  | WeakDtor nat
  | WeakLock nat nat

fun step :: "ptr_op \<Rightarrow> ptr_state \<Rightarrow> ptr_state option" where
  "step (MakeShared p blk_ok data_ok) s =
     (if blk_ok \<and> data_ok then
        do { sh \<leftarrow> new_handle (shared s) p (Ptr (length (blocks s)));
             Some (s\<lparr> blocks := blocks s @ [inc_strong control_blk_init], shared := sh \<rparr>) }
      else
        do { sh \<leftarrow> new_handle (shared s) p Null; Some (s\<lparr> shared := sh \<rparr>) })"
| "step (SharedDefault p) s =
     do { sh \<leftarrow> new_handle (shared s) p Null; Some (s\<lparr> shared := sh \<rparr>) }"
| "step (SharedCopy p q) s =
     do { h \<leftarrow> live (shared s) q;
          bs \<leftarrow> shared_acquire (blocks s) h;
          sh \<leftarrow> new_handle (shared s) p h;
          Some (s\<lparr> blocks := bs, shared := sh \<rparr>) }"
| "step (SharedMove p q) s =
     do { h \<leftarrow> live (shared s) q;
          sh \<leftarrow> new_handle (shared s) p h;
          Some (s\<lparr> shared := sh[q := Null] \<rparr>) }"
| "step (SharedAssign p q) s =
     do { hp \<leftarrow> live (shared s) p;
          hq \<leftarrow> live (shared s) q;
          if p = q then Some s
          else do { bs1 \<leftarrow> shared_reset (blocks s) hp;
                    bs2 \<leftarrow> shared_acquire bs1 hq;
                    Some (s\<lparr> blocks := bs2, shared := (shared s)[p := hq] \<rparr>) } }"
| "step (SharedMoveAssign p q) s =
     do { hp \<leftarrow> live (shared s) p;
          hq \<leftarrow> live (shared s) q;
          if p = q then Some s
          else do { bs1 \<leftarrow> shared_reset (blocks s) hp;
                    Some (s\<lparr> blocks := bs1, shared := (shared s)[p := hq, q := Null] \<rparr>) } }"
| "step (SharedReset p) s =
     do { hp \<leftarrow> live (shared s) p;
          bs \<leftarrow> shared_reset (blocks s) hp;
          Some (s\<lparr> blocks := bs, shared := (shared s)[p := Null] \<rparr>) }"
| "step (SharedSwap p q) s =
     do { hp \<leftarrow> live (shared s) p;
          hq \<leftarrow> live (shared s) q;
          Some (s\<lparr> shared := (shared s)[p := hq, q := hp] \<rparr>) }"
| "step (SharedDtor p) s =
     do { hp \<leftarrow> live (shared s) p;
          bs \<leftarrow> shared_reset (blocks s) hp;
          Some (s\<lparr> blocks := bs, shared := (shared s)[p := Dead] \<rparr>) }"
| "step (WeakDefault w) s =
     do { wk \<leftarrow> new_handle (weak s) w Null; Some (s\<lparr> weak := wk \<rparr>) }"
| "step (WeakFromShared w p) s =
     do { h \<leftarrow> live (shared s) p;
          bs \<leftarrow> weak_acquire (blocks s) h;
          wk \<leftarrow> new_handle (weak s) w h;
          Some (s\<lparr> blocks := bs, weak := wk \<rparr>) }"
| "step (WeakAssignShared w p) s =
     do { hw \<leftarrow> live (weak s) w;
          h \<leftarrow> live (shared s) p;
          bs1 \<leftarrow> weak_reset (blocks s) hw;
          bs2 \<leftarrow> weak_acquire bs1 h;
          Some (s\<lparr> blocks := bs2, weak := (weak s)[w := h] \<rparr>) }"
| "step (WeakCopy w v) s =
     do { h \<leftarrow> live (weak s) v;
          bs \<leftarrow> weak_acquire (blocks s) h;
          wk \<leftarrow> new_handle (weak s) w h;
          Some (s\<lparr> blocks := bs, weak := wk \<rparr>) }"
| "step (WeakMove w v) s =
     do { h \<leftarrow> live (weak s) v;
          wk \<leftarrow> new_handle (weak s) w h;
          Some (s\<lparr> weak := wk[v := Null] \<rparr>) }"
| "step (WeakAssign w v) s =
     do { hw \<leftarrow> live (weak s) w;
          hv \<leftarrow> live (weak s) v;
          if w = v then Some s
          else do { bs1 \<leftarrow> weak_reset (blocks s) hw;
                    bs2 \<leftarrow> weak_acquire bs1 hv;
                    Some (s\<lparr> blocks := bs2, weak := (weak s)[w := hv] \<rparr>) } }"
| "step (WeakMoveAssign w v) s =
     do { hw \<leftarrow> live (weak s) w;
          hv \<leftarrow> live (weak s) v;
          if w = v then Some s
          else do { bs1 \<leftarrow> weak_reset (blocks s) hw;
                    Some (s\<lparr> blocks := bs1, weak := (weak s)[w := hv, v := Null] \<rparr>) } }"
| "step (WeakReset w) s =
     do { hw \<leftarrow> live (weak s) w;
          bs \<leftarrow> weak_reset (blocks s) hw;
          Some (s\<lparr> blocks := bs, weak := (weak s)[w := Null] \<rparr>) }"
| "step (WeakSwap w v) s =
     do { hw \<leftarrow> live (weak s) w;
          hv \<leftarrow> live (weak s) v;
          Some (s\<lparr> weak := (weak s)[w := hv, v := hw] \<rparr>) }"
| "step (WeakDtor w) s =
     do { hw \<leftarrow> live (weak s) w;
          bs \<leftarrow> weak_reset (blocks s) hw;
          Some (s\<lparr> blocks := bs, weak := (weak s)[w := Dead] \<rparr>) }"
| "step (WeakLock p w) s =
     do { hw \<leftarrow> live (weak s) w;
          n \<leftarrow> use_count (blocks s) hw;
          if n = 0 then
            do { sh \<leftarrow> new_handle (shared s) p Null; Some (s\<lparr> shared := sh \<rparr>) }
          else
            do { bs \<leftarrow> shared_acquire (blocks s) hw;
                 sh \<leftarrow> new_handle (shared s) p hw;
                 Some (s\<lparr> blocks := bs, shared := sh \<rparr>) } }"

fun run :: "ptr_op list \<Rightarrow> ptr_state \<Rightarrow> ptr_state option" where
  "run [] s = Some s"
| "run (x # xs) s = (case step x s of None \<Rightarrow> None | Some s' \<Rightarrow> run xs s')"

definition ptr_init :: ptr_state where
  "ptr_init = \<lparr> blocks = [], shared = [], weak = [] \<rparr>"

text \<open>
  What the claim says of every control block: the weak count is at least one while the
  strong count is, the payload's destructor has run once if the strong count is zero and
  not at all otherwise, and the block was deallocated once if the weak count is zero and
  not at all otherwise.
\<close>

definition counts_hold :: "ptr_state \<Rightarrow> bool" where
  "counts_hold s \<longleftrightarrow>
     list_all (\<lambda>cb.
        (m_strong_count cb = 0 \<or> m_weak_count cb \<noteq> 0) \<and>
        dtor_calls cb = (if m_strong_count cb = 0 then 1 else 0) \<and>
        dealloc_calls cb = (if m_weak_count cb = 0 then 1 else 0)) (blocks s)"

text \<open>
  The invariant behind it ties the counters to the handles that exist: \<open>ns\<close> strong and
  \<open>nw\<close> weak handles point at a block.
\<close>

definition n_ptr :: "handle list \<Rightarrow> nat \<Rightarrow> nat" where
  "n_ptr hs a = count_list hs (Ptr a)"

definition blk_ok :: "control_blk \<Rightarrow> nat \<Rightarrow> nat \<Rightarrow> bool" where
  "blk_ok cb ns nw \<longleftrightarrow>
     unat (m_strong_count cb) = ns \<and>
     unat (m_weak_count cb) = nw + (if 0 < ns then 1 else 0) \<and>
     m_data cb = (0 < ns) \<and>
     dtor_calls cb = (if ns = 0 then 1 else 0) \<and>
     dealloc_calls cb = (if ns = 0 \<and> nw = 0 then 1 else 0)"

definition blocks_ok :: "control_blk list \<Rightarrow> (nat \<Rightarrow> nat) \<Rightarrow> (nat \<Rightarrow> nat) \<Rightarrow> bool" where
  "blocks_ok bs S W \<longleftrightarrow> (\<forall>a < length bs. blk_ok (bs ! a) (S a) (W a))"

definition ptr_inv :: "ptr_state \<Rightarrow> bool" where
  "ptr_inv s \<longleftrightarrow>
     blocks_ok (blocks s) (n_ptr (shared s)) (n_ptr (weak s)) \<and>
     (\<forall>a \<ge> length (blocks s). n_ptr (shared s) a = 0 \<and> n_ptr (weak s) a = 0)"

text \<open>The ghost counters of the blocks never decrease from one state to a later one.\<close>

definition blocks_mono :: "control_blk list \<Rightarrow> control_blk list \<Rightarrow> bool" where
  "blocks_mono bs bs' \<longleftrightarrow>
     length bs \<le> length bs' \<and>
     list_all (\<lambda>a. dtor_calls (bs ! a) \<le> dtor_calls (bs' ! a) \<and>
                    dealloc_calls (bs ! a) \<le> dealloc_calls (bs' ! a)) [0..<length bs]"

text \<open>A run in which a weak handle outlives the strong ones.\<close>

definition ptr_demo :: "ptr_op list" where
  "ptr_demo = [MakeShared 0 True True, WeakFromShared 0 0, SharedCopy 1 0, SharedDtor 0,
               WeakLock 2 0, SharedReset 1, SharedDtor 2, WeakLock 0 0, WeakDtor 0]"

definition ptr_demo_final :: ptr_state where
  "ptr_demo_final =
     \<lparr> blocks = [\<lparr> m_data = False, m_strong_count = 0, m_weak_count = 0,
                   dtor_calls = 1, dealloc_calls = 1 \<rparr>],
       shared = [Null, Null, Dead], weak = [Dead] \<rparr>"

text \<open>
  A run that copies one strong handle \<open>n\<close> times: \<open>make_shared\<close> into handle 0, then
  the copy constructor from handle 0 into a new handle each time. \<open>ptr_copied n\<close> is the
  state that it reaches while the strong count does not pass through zero.
\<close>

definition ptr_copies :: "nat \<Rightarrow> ptr_op list" where
  "ptr_copies n = MakeShared 0 True True # map (\<lambda>i. SharedCopy (Suc i) 0) [0..<n]"

definition ptr_copied :: "nat \<Rightarrow> ptr_state" where
  "ptr_copied n =
     \<lparr> blocks = [\<lparr> m_data = True, m_strong_count = of_nat (Suc n), m_weak_count = 1,
                   dtor_calls = 0, dealloc_calls = 0 \<rparr>],
       shared = replicate (Suc n) (Ptr 0), weak = [] \<rparr>"

section \<open>The hash map with amortized resizing (map.hpp, vector.hpp, hash.hpp, utility.hpp)\<close>

text \<open>
  The map owns two tables (\<open>m_main\<close>, \<open>m_secondary\<close>), each a vector of buckets, each
  bucket a vector of entries. Pointers are modelled by what they point at:

  \<^item> \<open>Table*\<close> is a \<open>table option\<close>, \<open>None\<close> the null pointer;
  \<^item> \<open>T* m_val\<close> of an entry is a \<open>'v option\<close>: \<open>None\<close> is the null pointer, \<open>Some v\<close> a
    heap cell that holds \<open>v\<close>;
  \<^item> \<open>Entry*\<close> into a table is the pair (bucket index, position in the bucket) and
    \<open>Bucket*\<close> the bucket index.

  The allocator is an oracle: the list of the answers that the next calls of
  \<open>allocate\<close> will give (\<open>True\<close>: memory returned, \<open>False\<close>: null pointer); once the list is
  used up every allocation succeeds. Deallocation has no effect on the oracle.

  Keys are of a trivially copyable type (the tests use \<open>int\<close> and \<open>size_t\<close>), so that
  moving a key copies it. The hasher \<open>rtl::hash<Key>\<close> is a parameter \<open>h\<close> of every function
  that hashes; \<open>hash_u32\<close> is the instance for a four-byte key on a little-endian machine.
  \<open>size_t\<close> is 64 bits wide; \<open>m_total_entries\<close> is a natural number below \<open>2 ^ 64\<close> whose
  increment and decrement wrap as in the source (\<open>size_t_inc\<close>, \<open>size_t_dec\<close>).
  The constructor argument \<open>max_load_factor\<close> is given as the integer
  \<open>m_max_load_factor_percent\<close> that the constructor computes from it (500 for the
  default 5.0).
\<close>

subsection \<open>Allocator, vector, hash\<close>

type_synonym allocator = "bool list"

definition allocate :: "allocator \<Rightarrow> bool \<times> allocator" where
  "allocate a = (case a of [] \<Rightarrow> (True, []) | ok # rest \<Rightarrow> (ok, rest))"

datatype 'a vector = Vector (vec_buf: "'a list") (vec_capacity: nat)

definition vec_new :: "'a vector" where
  "vec_new = Vector [] 0"

definition vec_size :: "'a vector \<Rightarrow> nat" where
  "vec_size v = length (vec_buf v)"

definition vec_is_empty :: "'a vector \<Rightarrow> bool" where
  "vec_is_empty v \<longleftrightarrow> vec_buf v = []"

definition vec_reserve :: "'a vector \<Rightarrow> nat \<Rightarrow> allocator \<Rightarrow> bool \<times> 'a vector \<times> allocator" where
  "vec_reserve v new_capacity a =
     (if new_capacity \<le> vec_capacity v then (True, v, a)
      else (case allocate a of
              (False, a') \<Rightarrow> (False, v, a')
            | (True, a') \<Rightarrow> (True, Vector (vec_buf v) new_capacity, a')))"

definition vec_push_back :: "'a vector \<Rightarrow> 'a \<Rightarrow> allocator \<Rightarrow> bool \<times> 'a vector \<times> allocator" where
  "vec_push_back v x a =
     (if vec_size v = vec_capacity v then
        (case vec_reserve v (if vec_capacity v = 0 then 1 else 2 * vec_capacity v) a of
           (False, v', a') \<Rightarrow> (False, v', a')
         | (True, v', a') \<Rightarrow> (True, Vector (vec_buf v' @ [x]) (vec_capacity v'), a'))
      else (True, Vector (vec_buf v @ [x]) (vec_capacity v), a))"

definition vec_pop_back :: "'a vector \<Rightarrow> 'a vector" where
  "vec_pop_back v = (if vec_buf v = [] then v else Vector (butlast (vec_buf v)) (vec_capacity v))"

definition vec_remove_fast :: "'a vector \<Rightarrow> nat \<Rightarrow> 'a vector" where
  "vec_remove_fast v index =
     (if index \<ge> vec_size v then v
      else vec_pop_back
             (Vector ((vec_buf v)[index := last (vec_buf v), vec_size v - 1 := vec_buf v ! index])
                (vec_capacity v)))"

definition vec_clear :: "'a vector \<Rightarrow> 'a vector" where
  "vec_clear v = Vector [] (vec_capacity v)"

definition fnv1a :: "u8 list \<Rightarrow> u32" where
  "fnv1a buf = fold (\<lambda>b rval. (xor rval (ucast b)) * 16777619) buf 2166136261"

definition hash_u32 :: "u32 \<Rightarrow> u32" where
  "hash_u32 obj =
     fnv1a [ucast obj, ucast (drop_bit 8 obj), ucast (drop_bit 16 obj), ucast (drop_bit 24 obj)]"

definition power_of_two_primes :: "nat list" where
  "power_of_two_primes =
     [2, 2, 5, 11, 17, 37, 67, 131, 257, 521, 1031, 2053, 4099, 8209, 16411, 32771, 65537,
      131101, 262147, 524309, 1048583, 2097169, 4194319, 8388617, 16777259, 33554467,
      67108879, 134217757, 268435459, 536870923, 1073741827, 2147483659]"

definition get_prime_power_of_2 :: "nat \<Rightarrow> nat" where
  "get_prime_power_of_2 n = (if n \<ge> 32 then 0 else power_of_two_primes ! n)"

subsection \<open>Entries and buckets\<close>

datatype ('k, 'v) entry = Entry (key_val: 'k) (val_val: "'v option")

type_synonym ('k, 'v) bucket = "('k, 'v) entry vector"

fun find_entry :: "'k \<Rightarrow> ('k, 'v) entry list \<Rightarrow> nat option" where
  "find_entry key [] = None"
| "find_entry key (e # es) =
     (if key_val e = key then Some 0 else map_option Suc (find_entry key es))"

definition construct :: "('k, 'v) entry \<Rightarrow> 'v \<Rightarrow> allocator \<Rightarrow> bool \<times> ('k, 'v) entry \<times> allocator" where
  "construct e val a =
     (case val_val e of
        Some old \<Rightarrow> (True, Entry (key_val e) (Some val), a)
      | None \<Rightarrow>
          (case allocate a of
             (False, a') \<Rightarrow> (False, e, a')
           | (True, a') \<Rightarrow> (True, Entry (key_val e) (Some val), a')))"

definition bucket_get :: "('k, 'v) bucket \<Rightarrow> 'k \<Rightarrow> 'v option" where
  "bucket_get b key =
     (case find_entry key (vec_buf b) of None \<Rightarrow> None | Some i \<Rightarrow> val_val (vec_buf b ! i))"

definition bucket_remove :: "('k, 'v) bucket \<Rightarrow> 'k \<Rightarrow> bool \<times> ('k, 'v) bucket" where
  "bucket_remove b key =
     (case find_entry key (vec_buf b) of
        None \<Rightarrow> (False, b)
      | Some entry_idx \<Rightarrow> (True, vec_remove_fast b entry_idx))"

definition bucket_get_entry :: "('k, 'v) bucket \<Rightarrow> 'k \<Rightarrow> nat option" where
  "bucket_get_entry b key = find_entry key (vec_buf b)"

definition bucket_get_or_create_entry ::
  "('k, 'v) bucket \<Rightarrow> 'k \<Rightarrow> allocator \<Rightarrow> int \<times> nat option \<times> ('k, 'v) bucket \<times> allocator" where
  "bucket_get_or_create_entry b key a =
     (case find_entry key (vec_buf b) of
        Some i \<Rightarrow> (0, Some i, b, a)
      | None \<Rightarrow>
          (case vec_push_back b (Entry key None) a of
             (False, b', a') \<Rightarrow> (- 1, None, b', a')
           | (True, b', a') \<Rightarrow> (1, Some (vec_size b' - 1), b', a')))"

subsection \<open>Tables\<close>

record ('k, 'v) table =
  m_buckets :: "('k, 'v) bucket vector"
  m_total_entries :: nat
  m_num_buckets :: nat
  m_power_of_2_size :: nat

definition size_t_max :: nat where
  "size_t_max = 2 ^ 64 - 1"

definition size_t_dec :: "nat \<Rightarrow> nat" where
  "size_t_dec n = (if n = 0 then size_t_max else n - 1)"

definition size_t_inc :: "nat \<Rightarrow> nat" where
  "size_t_inc n = (if n = size_t_max then 0 else n + 1)"

fun expand_loop ::
  "nat \<Rightarrow> nat \<Rightarrow> ('k, 'v) bucket vector \<Rightarrow> allocator \<Rightarrow> nat \<times> ('k, 'v) bucket vector \<times> allocator" where
  "expand_loop 0 i v a = (i, v, a)"
| "expand_loop (Suc remaining) i v a =
     (case vec_push_back v vec_new a of
        (False, v', a') \<Rightarrow> (i, v', a')
      | (True, v', a') \<Rightarrow> expand_loop remaining (i + 1) v' a')"

definition expand ::
  "('k, 'v) bucket vector \<Rightarrow> nat \<Rightarrow> allocator \<Rightarrow> nat \<times> ('k, 'v) bucket vector \<times> allocator" where
  "expand v num a =
     (case vec_reserve v num a of (ok, v', a') \<Rightarrow> expand_loop num 0 v' a')"

definition table_init :: "allocator \<Rightarrow> nat \<Rightarrow> ('k, 'v) table \<times> allocator" where
  "table_init a initial_power_of_2 =
     (let p1 = (if initial_power_of_2 \<ge> 32 then 31 else initial_power_of_2);
          p2 = (if p1 < 4 then 4 else p1)
      in case expand vec_new (get_prime_power_of_2 p2) a of
           (n, v, a') \<Rightarrow>
             (\<lparr> m_buckets = v, m_total_entries = 0, m_num_buckets = n,
                m_power_of_2_size = p2 \<rparr>, a'))"

definition get_next_power_of_2 :: "('k, 'v) table \<Rightarrow> nat" where
  "get_next_power_of_2 t = (m_power_of_2_size t + 1) mod 256"

definition get_bucket_index :: "('k \<Rightarrow> u32) \<Rightarrow> ('k, 'v) table \<Rightarrow> 'k \<Rightarrow> nat" where
  "get_bucket_index h t key = unat (h key) mod m_num_buckets t"

definition bucket_at :: "('k, 'v) table \<Rightarrow> nat \<Rightarrow> ('k, 'v) bucket" where
  "bucket_at t i = vec_buf (m_buckets t) ! i"

definition set_bucket :: "('k, 'v) table \<Rightarrow> nat \<Rightarrow> ('k, 'v) bucket \<Rightarrow> ('k, 'v) table" where
  "set_bucket t i b =
     t\<lparr> m_buckets := Vector ((vec_buf (m_buckets t))[i := b]) (vec_capacity (m_buckets t)) \<rparr>"

definition table_get :: "('k \<Rightarrow> u32) \<Rightarrow> ('k, 'v) table \<Rightarrow> 'k \<Rightarrow> 'v option" where
  "table_get h t key =
     (if m_num_buckets t = 0 then None
      else bucket_get (bucket_at t (get_bucket_index h t key)) key)"

definition table_get_entry :: "('k \<Rightarrow> u32) \<Rightarrow> ('k, 'v) table \<Rightarrow> 'k \<Rightarrow> (nat \<times> nat) option" where
  "table_get_entry h t key =
     (if m_num_buckets t = 0 then None
      else (let bucket_index = get_bucket_index h t key
            in map_option (\<lambda>i. (bucket_index, i))
                 (bucket_get_entry (bucket_at t bucket_index) key)))"

definition entry_at :: "('k, 'v) table \<Rightarrow> nat \<times> nat \<Rightarrow> ('k, 'v) entry" where
  "entry_at t p = vec_buf (bucket_at t (fst p)) ! snd p"

definition set_entry :: "('k, 'v) table \<Rightarrow> nat \<times> nat \<Rightarrow> ('k, 'v) entry \<Rightarrow> ('k, 'v) table" where
  "set_entry t p e =
     (let b = bucket_at t (fst p)
      in set_bucket t (fst p) (Vector ((vec_buf b)[snd p := e]) (vec_capacity b)))"

record ('k, 'v) table_get_or_create_result =
  res_entry :: "(nat \<times> nat) option"
  res_bucket :: "nat option"
  res_created :: bool

definition table_get_or_create_entry ::
  "('k \<Rightarrow> u32) \<Rightarrow> ('k, 'v) table \<Rightarrow> 'k \<Rightarrow> allocator \<Rightarrow>
     ('k, 'v) table_get_or_create_result \<times> ('k, 'v) table \<times> allocator" where
  "table_get_or_create_entry h t key a =
     (if m_num_buckets t = 0
      then (\<lparr> res_entry = None, res_bucket = None, res_created = False \<rparr>, t, a)
      else
        (let bucket_index = get_bucket_index h t key
         in case bucket_get_or_create_entry (bucket_at t bucket_index) key a of
              (created_count, entry, b', a') \<Rightarrow>
                (let t1 = set_bucket t bucket_index b';
                     rval = \<lparr> res_entry = map_option (\<lambda>i. (bucket_index, i)) entry,
                              res_bucket = Some bucket_index, res_created = False \<rparr>
                 in if created_count > 0
                    then (rval\<lparr> res_created := True \<rparr>,
                          t1\<lparr> m_total_entries := size_t_inc (m_total_entries t1) \<rparr>, a')
                    else (rval, t1, a'))))"

definition table_del :: "('k \<Rightarrow> u32) \<Rightarrow> ('k, 'v) table \<Rightarrow> 'k \<Rightarrow> bool \<times> ('k, 'v) table" where
  "table_del h t key =
     (if m_num_buckets t = 0 then (False, t)
      else
        (let bucket_index = get_bucket_index h t key
         in case bucket_remove (bucket_at t bucket_index) key of
              (rval, b') \<Rightarrow>
                (let t1 = set_bucket t bucket_index b'
                 in if rval then (True, t1\<lparr> m_total_entries := size_t_dec (m_total_entries t1) \<rparr>)
                    else (False, t1))))"

definition table_delete_all_entries :: "('k, 'v) table \<Rightarrow> ('k, 'v) table" where
  "table_delete_all_entries t =
     t\<lparr> m_buckets := Vector (map vec_clear (vec_buf (m_buckets t))) (vec_capacity (m_buckets t)),
        m_total_entries := 0 \<rparr>"

subsection \<open>The map\<close>

datatype MapState = ERROR | STABLE | TRANSFER

record ('k, 'v) unordered_map =
  m_alloc :: allocator
  m_main :: "('k, 'v) table option"
  m_secondary :: "('k, 'v) table option"
  m_state :: MapState
  m_max_load_factor_percent :: nat
  m_current_bucket_to_transfer :: nat
  m_locked :: bool

definition compute_state :: "('k, 'v) unordered_map \<Rightarrow> ('k, 'v) unordered_map" where
  "compute_state m =
     (case m_main m of
        None \<Rightarrow> m\<lparr> m_state := ERROR \<rparr>
      | Some main \<Rightarrow>
          m\<lparr> m_state := (case m_secondary m of None \<Rightarrow> STABLE | Some sec \<Rightarrow> TRANSFER) \<rparr>)"

definition unordered_map_init :: "allocator \<Rightarrow> nat \<Rightarrow> ('k, 'v) unordered_map" where
  "unordered_map_init alloc max_load_factor_percent =
     (let m0 = \<lparr> m_alloc = alloc, m_main = None, m_secondary = None, m_state = ERROR,
                 m_max_load_factor_percent = max_load_factor_percent,
                 m_current_bucket_to_transfer = 0, m_locked = False \<rparr>
      in case allocate alloc of
           (False, a1) \<Rightarrow> compute_state (m0\<lparr> m_alloc := a1 \<rparr>)
         | (True, a1) \<Rightarrow>
             (case table_init a1 4 of
                (t, a2) \<Rightarrow> compute_state (m0\<lparr> m_alloc := a2, m_main := Some t \<rparr>)))"

definition lock_table_size :: "('k, 'v) unordered_map \<Rightarrow> ('k, 'v) unordered_map" where
  "lock_table_size m = m\<lparr> m_locked := True \<rparr>"

definition unlock_table_size :: "('k, 'v) unordered_map \<Rightarrow> ('k, 'v) unordered_map" where
  "unlock_table_size m = m\<lparr> m_locked := False \<rparr>"

definition should_resize :: "('k, 'v) unordered_map \<Rightarrow> ('k, 'v) table \<Rightarrow> bool" where
  "should_resize m main =
     (if m_locked m then False
      else (let main_buckets = m_num_buckets main;
                main_key_count = m_total_entries main;
                max_key_count = (m_max_load_factor_percent m * main_buckets) div 100
            in main_key_count \<ge> max_key_count))"

definition begin_resize :: "('k, 'v) unordered_map \<Rightarrow> nat \<Rightarrow> bool \<times> ('k, 'v) unordered_map" where
  "begin_resize m new_power_of_2 =
     (case allocate (m_alloc m) of
        (False, a1) \<Rightarrow> (False, m\<lparr> m_alloc := a1, m_secondary := None \<rparr>)
      | (True, a1) \<Rightarrow>
          (case table_init a1 (new_power_of_2 mod 256) of
             (sec, a2) \<Rightarrow>
               (let expected_num_of_buckets = get_prime_power_of_2 new_power_of_2
                in if expected_num_of_buckets \<noteq> m_num_buckets sec
                   then (False, m\<lparr> m_alloc := a2, m_secondary := None \<rparr>)
                   else (True, m\<lparr> m_alloc := a2, m_secondary := Some sec, m_state := TRANSFER,
                                  m_current_bucket_to_transfer := 0 \<rparr>))))"

definition buckets_total :: "('k, 'v) table \<Rightarrow> nat" where
  "buckets_total t = sum_list (map vec_size (vec_buf (m_buckets t)))"

function partial_transfer_loop ::
  "('k \<Rightarrow> u32) \<Rightarrow> nat \<Rightarrow> nat \<Rightarrow> nat \<Rightarrow> ('k, 'v) table \<Rightarrow> ('k, 'v) table \<Rightarrow> allocator \<Rightarrow>
     bool \<times> nat \<times> ('k, 'v) table \<times> ('k, 'v) table \<times> allocator" where
  "partial_transfer_loop h number_of_keys_to_transfer main_buckets cur main sec a =
     (if cur < main_buckets \<and> cur < vec_size (m_buckets main) then
        (let bucket = bucket_at main cur
         in if vec_is_empty bucket
            then partial_transfer_loop h number_of_keys_to_transfer main_buckets (cur + 1) main sec a
            else if number_of_keys_to_transfer = 0 then (True, cur, main, sec, a)
            else
              (let e = last (vec_buf bucket)
               in case table_get_or_create_entry h sec (key_val e) a of
                    (res, sec1, a1) \<Rightarrow>
                      (case res_entry res of
                         None \<Rightarrow> (False, cur, main, sec1, a1)
                       | Some p \<Rightarrow>
                           (let sec2 = (if res_created res then set_entry sec1 p e else sec1);
                                main1 = set_bucket main cur (vec_pop_back bucket);
                                main2 = main1\<lparr> m_total_entries := size_t_dec (m_total_entries main1) \<rparr>
                            in partial_transfer_loop h (number_of_keys_to_transfer - 1) main_buckets
                                 cur main2 sec2 a1))))
      else (True, cur, main, sec, a))"
  by pat_completeness auto
termination
proof (relation "measure (\<lambda>(h, n, main_buckets, cur, main, sec, a).
            buckets_total main + (main_buckets - cur))", goal_cases)
  case 1
  show ?case by simp
next
  case (2 h n main_buckets cur main sec a bucket)
  then show ?case by auto
next
  case (3 h n main_buckets cur main sec a bucket e res y sec1 a1 p sec2 main1 main2)
  define bs where "bs = vec_buf (m_buckets main)"
  have cur: "cur < length bs" using 3(1) by (simp add: bs_def vec_size_def)
  have ne: "vec_buf (bs ! cur) \<noteq> []"
    using 3(2,3) by (simp add: bucket_at_def vec_is_empty_def bs_def)
  have sz: "0 < vec_size (bs ! cur)" using ne by (simp add: vec_size_def)
  have main2: "vec_buf (m_buckets main2) = bs[cur := vec_pop_back (bs ! cur)]"
    using 3(2,10,11) by (simp add: set_bucket_def bucket_at_def bs_def)
  have pop: "vec_size (vec_pop_back (bs ! cur)) = vec_size (bs ! cur) - 1"
    using ne by (simp add: vec_pop_back_def vec_size_def)
  have "map vec_size (bs[cur := vec_pop_back (bs ! cur)])
          = (map vec_size bs)[cur := vec_size (bs ! cur) - 1]"
    using pop by (simp add: map_update)
  then have "sum_list (map vec_size (bs[cur := vec_pop_back (bs ! cur)]))
          = sum_list (map vec_size bs) + (vec_size (bs ! cur) - 1) - (map vec_size bs) ! cur"
    using cur by (simp add: sum_list_update)
  moreover have "(map vec_size bs) ! cur = vec_size (bs ! cur)" using cur by simp
  moreover have "vec_size (bs ! cur) \<le> sum_list (map vec_size bs)"
    using cur by (intro member_le_sum_list) (auto simp: in_set_conv_nth intro!: image_eqI)
  ultimately have "sum_list (map vec_size (bs[cur := vec_pop_back (bs ! cur)]))
          < sum_list (map vec_size bs)"
    using sz by simp
  then have "buckets_total main2 < buckets_total main"
    using main2 by (simp add: buckets_total_def bs_def)
  then show ?case by simp
qed

text \<open>
  The operations of the map dereference \<open>m_main\<close> (and \<open>m_secondary\<close> in the
  \<open>TRANSFER\<close> state) without a null check. No operation of the map produces a state
  other than \<open>ERROR\<close> with a null \<open>m_main\<close>, or the \<open>TRANSFER\<close> state with a null
  \<open>m_secondary\<close>; in the model those branches return the failure value of the
  operation and leave the map as it is.

  \<open>resize_check\<close> is the block \<open>if (should_resize()) { ... begin_resize ... }\<close> that ends
  the \<open>STABLE\<close> case of \<open>get\<close>, \<open>put\<close> and \<open>del\<close>; \<open>transfer_step\<close> is the block
  \<open>perform_partial_transfer(); ... if (is_transfer_complete()) end_resize();\<close> that ends
  their \<open>TRANSFER\<close> case. \<open>transfer_loop\<close> is the loop
  \<open>while (!transfer_complete) { ... }\<close> of \<open>finalize\<close> and \<open>reserve\<close>; nothing in the source
  bounds its iterations, so it is a partial function and \<open>None\<close> stands for a loop that
  never ends.
\<close>

definition perform_partial_transfer ::
  "('k \<Rightarrow> u32) \<Rightarrow> ('k, 'v) unordered_map \<Rightarrow> bool \<times> ('k, 'v) unordered_map" where
  "perform_partial_transfer h m =
     (case (m_main m, m_secondary m) of
        (Some main, Some sec) \<Rightarrow>
          (case partial_transfer_loop h 512 (m_num_buckets main)
                  (m_current_bucket_to_transfer m) main sec (m_alloc m) of
             (ok, cur, main', sec', a') \<Rightarrow>
               (ok, m\<lparr> m_alloc := a', m_main := Some main', m_secondary := Some sec',
                       m_current_bucket_to_transfer := cur \<rparr>))
      | _ \<Rightarrow> (False, m))"

definition is_transfer_complete :: "('k, 'v) unordered_map \<Rightarrow> bool" where
  "is_transfer_complete m =
     (case m_main m of Some main \<Rightarrow> m_total_entries main = 0 | None \<Rightarrow> False)"

definition end_resize :: "('k, 'v) unordered_map \<Rightarrow> ('k, 'v) unordered_map" where
  "end_resize m =
     m\<lparr> m_main := m_secondary m, m_secondary := None, m_state := STABLE,
        m_current_bucket_to_transfer := 0 \<rparr>"

definition resize_check ::
  "('k, 'v) unordered_map \<Rightarrow> ('k, 'v) table \<Rightarrow> 'r \<Rightarrow> 'r \<Rightarrow> 'r \<times> ('k, 'v) unordered_map" where
  "resize_check m main failure rval =
     (if should_resize m main then
        (case begin_resize m (get_next_power_of_2 main) of
           (False, m1) \<Rightarrow> (failure, m1\<lparr> m_state := ERROR \<rparr>)
         | (True, m1) \<Rightarrow> (rval, m1))
      else (rval, m))"

definition transfer_step ::
  "('k \<Rightarrow> u32) \<Rightarrow> ('k, 'v) unordered_map \<Rightarrow> 'r \<Rightarrow> 'r \<Rightarrow> 'r \<times> ('k, 'v) unordered_map" where
  "transfer_step h m failure rval =
     (case perform_partial_transfer h m of
        (False, m1) \<Rightarrow> (failure, m1\<lparr> m_state := ERROR \<rparr>)
      | (True, m1) \<Rightarrow> (rval, if is_transfer_complete m1 then end_resize m1 else m1))"

definition contains :: "('k \<Rightarrow> u32) \<Rightarrow> ('k, 'v) unordered_map \<Rightarrow> 'k \<Rightarrow> bool" where
  "contains h m key =
     (case m_state m of
        ERROR \<Rightarrow> False
      | STABLE \<Rightarrow>
          (case m_main m of None \<Rightarrow> False | Some main \<Rightarrow> table_get h main key \<noteq> None)
      | TRANSFER \<Rightarrow>
          (case (m_main m, m_secondary m) of
             (Some main, Some sec) \<Rightarrow>
               (case table_get h sec key of
                  None \<Rightarrow> table_get h main key \<noteq> None
                | Some v \<Rightarrow> True)
           | _ \<Rightarrow> False))"

definition get ::
  "('k \<Rightarrow> u32) \<Rightarrow> ('k, 'v) unordered_map \<Rightarrow> 'k \<Rightarrow> 'v option \<times> ('k, 'v) unordered_map" where
  "get h m key =
     (case m_state m of
        ERROR \<Rightarrow> (None, m)
      | STABLE \<Rightarrow>
          (case m_main m of
             None \<Rightarrow> (None, m)
           | Some main \<Rightarrow> resize_check m main None (table_get h main key))
      | TRANSFER \<Rightarrow>
          (case (m_main m, m_secondary m) of
             (Some main, Some sec) \<Rightarrow>
               (let rval = (case table_get h sec key of
                              None \<Rightarrow> table_get h main key
                            | Some v \<Rightarrow> Some v)
                in transfer_step h m None rval)
           | _ \<Rightarrow> (None, m)))"

definition put ::
  "('k \<Rightarrow> u32) \<Rightarrow> ('k, 'v) unordered_map \<Rightarrow> 'k \<Rightarrow> 'v \<Rightarrow> bool \<times> ('k, 'v) unordered_map" where
  "put h m key val =
     (case m_state m of
        ERROR \<Rightarrow> (False, m)
      | STABLE \<Rightarrow>
          (case m_main m of
             None \<Rightarrow> (False, m)
           | Some main \<Rightarrow>
               (case table_get_or_create_entry h main key (m_alloc m) of
                  (res, main1, a1) \<Rightarrow>
                    (case (res_entry res, res_bucket res) of
                       (Some p, Some bi) \<Rightarrow>
                         (case construct (entry_at main1 p) val a1 of
                            (True, e', a2) \<Rightarrow>
                              (let m1 = m\<lparr> m_alloc := a2, m_main := Some (set_entry main1 p e') \<rparr>
                               in resize_check m1 (set_entry main1 p e') False True)
                          | (False, e', a2) \<Rightarrow>
                              (let main2 =
                                     (if res_created res
                                      then set_bucket main1 bi
                                             (snd (bucket_remove (bucket_at main1 bi)
                                                     (key_val (entry_at main1 p))))
                                      else main1);
                                   m1 = m\<lparr> m_alloc := a2, m_main := Some main2 \<rparr>
                               in resize_check m1 main2 False False))
                     | _ \<Rightarrow>
                         (let m1 = m\<lparr> m_alloc := a1, m_main := Some main1 \<rparr>
                          in resize_check m1 main1 False False))))
      | TRANSFER \<Rightarrow>
          (case (m_main m, m_secondary m) of
             (Some main, Some sec) \<Rightarrow>
               (case table_get_or_create_entry h sec key (m_alloc m) of
                  (res, sec1, a1) \<Rightarrow>
                    (case (res_entry res, res_bucket res) of
                       (Some p, Some bi) \<Rightarrow>
                         (let (main1, sec2) =
                                (if res_created res then
                                   (case table_get_entry h main key of
                                      Some q \<Rightarrow>
                                        (set_entry main q (Entry (key_val (entry_at main q)) None),
                                         set_entry sec1 p (entry_at main q))
                                    | None \<Rightarrow> (main, sec1))
                                 else (main, sec1))
                          in case construct (entry_at sec2 p) val a1 of
                               (True, e', a2) \<Rightarrow>
                                 transfer_step h
                                   (m\<lparr> m_alloc := a2, m_main := Some main1,
                                        m_secondary := Some (set_entry sec2 p e') \<rparr>)
                                   False True
                             | (False, e', a2) \<Rightarrow>
                                 (let sec3 =
                                        (if res_created res
                                         then (let sec2' = set_entry sec2 p
                                                      (Entry (key_val (entry_at sec2 p)) None)
                                               in set_bucket sec2' bi
                                                    (snd (bucket_remove (bucket_at sec2' bi)
                                                            (key_val (entry_at sec2' p)))))
                                         else sec2)
                                  in transfer_step h
                                       (m\<lparr> m_alloc := a2, m_main := Some main1,
                                            m_secondary := Some sec3 \<rparr>)
                                       False False))
                     | _ \<Rightarrow>
                         transfer_step h (m\<lparr> m_alloc := a1, m_secondary := Some sec1 \<rparr>)
                           False False))
           | _ \<Rightarrow> (False, m)))"

definition del ::
  "('k \<Rightarrow> u32) \<Rightarrow> ('k, 'v) unordered_map \<Rightarrow> 'k \<Rightarrow> bool \<times> ('k, 'v) unordered_map" where
  "del h m key =
     (case m_state m of
        ERROR \<Rightarrow> (False, m)
      | STABLE \<Rightarrow>
          (case m_main m of
             None \<Rightarrow> (False, m)
           | Some main \<Rightarrow>
               (case table_del h main key of
                  (rval, main1) \<Rightarrow> resize_check (m\<lparr> m_main := Some main1 \<rparr>) main1 False rval))
      | TRANSFER \<Rightarrow>
          (case (m_main m, m_secondary m) of
             (Some main, Some sec) \<Rightarrow>
               (case table_del h main key of
                  (True, main1) \<Rightarrow> transfer_step h (m\<lparr> m_main := Some main1 \<rparr>) False True
                | (False, main1) \<Rightarrow>
                    (case table_del h sec key of
                       (rval, sec1) \<Rightarrow>
                         transfer_step h (m\<lparr> m_main := Some main1, m_secondary := Some sec1 \<rparr>)
                           False rval))
           | _ \<Rightarrow> (False, m)))"

partial_function (option) transfer_loop ::
  "('k \<Rightarrow> u32) \<Rightarrow> ('k, 'v) unordered_map \<Rightarrow> (bool \<times> ('k, 'v) unordered_map) option" where
  "transfer_loop h m =
     (if is_transfer_complete m then Some (True, m)
      else if fst (perform_partial_transfer h m)
           then transfer_loop h (snd (perform_partial_transfer h m))
           else Some (False, snd (perform_partial_transfer h m)))"

definition finalize ::
  "('k \<Rightarrow> u32) \<Rightarrow> ('k, 'v) unordered_map \<Rightarrow> (bool \<times> ('k, 'v) unordered_map) option" where
  "finalize h m =
     (case m_state m of
        ERROR \<Rightarrow> Some (False, m)
      | STABLE \<Rightarrow> Some (True, m)
      | TRANSFER \<Rightarrow>
          (case transfer_loop h m of
             None \<Rightarrow> None
           | Some (False, m1) \<Rightarrow> Some (False, m1)
           | Some (True, m1) \<Rightarrow> Some (True, end_resize m1)))"

definition reserve ::
  "('k \<Rightarrow> u32) \<Rightarrow> ('k, 'v) unordered_map \<Rightarrow> u32 \<Rightarrow> (bool \<times> ('k, 'v) unordered_map) option" where
  "reserve h m number_of_buckets =
     (if m_state m = ERROR then Some (False, m)
      else if number_of_buckets = 0 then Some (False, m)
      else
        (case find (\<lambda>i. get_prime_power_of_2 i \<ge> unat number_of_buckets) [0..<32] of
           None \<Rightarrow> Some (False, m)
         | Some next_power_of_2 \<Rightarrow>
             (case (if m_state m = TRANSFER
                    then (case transfer_loop h m of
                            None \<Rightarrow> None
                          | Some (False, m1) \<Rightarrow> Some (False, m1)
                          | Some (True, m1) \<Rightarrow> Some (True, end_resize m1))
                    else Some (True, m)) of
                None \<Rightarrow> None
              | Some (False, m1) \<Rightarrow> Some (False, m1)
              | Some (True, m1) \<Rightarrow>
                  (case m_main m1 of
                     None \<Rightarrow> Some (False, m1)
                   | Some main \<Rightarrow>
                       if next_power_of_2 \<le> m_power_of_2_size main then Some (True, m1)
                       else
                         (case begin_resize m1 next_power_of_2 of
                            (False, m2) \<Rightarrow> Some (False, m2\<lparr> m_state := ERROR \<rparr>)
                          | (True, m2) \<Rightarrow>
                              (case transfer_loop h m2 of
                                 None \<Rightarrow> None
                               | Some (False, m3) \<Rightarrow> Some (False, m3)
                               | Some (True, m3) \<Rightarrow> Some (True, end_resize m3)))))))"

definition delete_all_keys ::
  "('k \<Rightarrow> u32) \<Rightarrow> ('k, 'v) unordered_map \<Rightarrow> ('k, 'v) unordered_map option" where
  "delete_all_keys h m =
     (case m_state m of
        ERROR \<Rightarrow> Some m
      | STABLE \<Rightarrow> Some (m\<lparr> m_main := map_option table_delete_all_entries (m_main m) \<rparr>)
      | TRANSFER \<Rightarrow>
          map_option snd
            (finalize h (m\<lparr> m_main := map_option table_delete_all_entries (m_main m),
                             m_secondary := map_option table_delete_all_entries (m_secondary m) \<rparr>)))"

definition get_num_buckets :: "('k, 'v) unordered_map \<Rightarrow> nat" where
  "get_num_buckets m =
     (case m_state m of
        ERROR \<Rightarrow> 0
      | STABLE \<Rightarrow> (case m_main m of None \<Rightarrow> 0 | Some main \<Rightarrow> m_num_buckets main)
      | TRANSFER \<Rightarrow> (case m_secondary m of None \<Rightarrow> 0 | Some sec \<Rightarrow> m_num_buckets sec))"

text \<open>
  The pointer \<open>rval\<close> that \<open>get\<close> computes before its resize bookkeeping: what the map
  holds for a key. \<open>get\<close> returns it unless the bookkeeping puts the map in the \<open>ERROR\<close>
  state, and \<open>contains\<close> tells whether it is null.
\<close>

definition lookup :: "('k \<Rightarrow> u32) \<Rightarrow> ('k, 'v) unordered_map \<Rightarrow> 'k \<Rightarrow> 'v option" where
  "lookup h m key =
     (case m_state m of
        ERROR \<Rightarrow> None
      | STABLE \<Rightarrow> (case m_main m of None \<Rightarrow> None | Some main \<Rightarrow> table_get h main key)
      | TRANSFER \<Rightarrow>
          (case (m_main m, m_secondary m) of
             (Some main, Some sec) \<Rightarrow>
               (case table_get h sec key of
                  None \<Rightarrow> table_get h main key
                | Some v \<Rightarrow> Some v)
           | _ \<Rightarrow> None))"

subsection \<open>Runs of map operations\<close>

datatype ('k, 'v) map_op =
    Get 'k | Put 'k 'v | Del 'k | Contains 'k | Reserve u32 | Finalize | DeleteAllKeys
  | LockTableSize | UnlockTableSize

datatype 'v op_result = Pointer "'v option" | Flag bool | Void

definition map_step ::
  "('k \<Rightarrow> u32) \<Rightarrow> ('k, 'v) map_op \<Rightarrow> ('k, 'v) unordered_map \<Rightarrow>
     ('v op_result \<times> ('k, 'v) unordered_map) option" where
  "map_step h op m =
     (case op of
        Get k \<Rightarrow> (case get h m k of (r, m') \<Rightarrow> Some (Pointer r, m'))
      | Put k v \<Rightarrow> (case put h m k v of (r, m') \<Rightarrow> Some (Flag r, m'))
      | Del k \<Rightarrow> (case del h m k of (r, m') \<Rightarrow> Some (Flag r, m'))
      | Contains k \<Rightarrow> Some (Flag (contains h m k), m)
      | Reserve n \<Rightarrow> map_option (\<lambda>(r, m'). (Flag r, m')) (reserve h m n)
      | Finalize \<Rightarrow> map_option (\<lambda>(r, m'). (Flag r, m')) (finalize h m)
      | DeleteAllKeys \<Rightarrow> map_option (\<lambda>m'. (Void, m')) (delete_all_keys h m)
      | LockTableSize \<Rightarrow> Some (Void, lock_table_size m)
      | UnlockTableSize \<Rightarrow> Some (Void, unlock_table_size m))"

fun map_run ::
  "('k \<Rightarrow> u32) \<Rightarrow> ('k, 'v) map_op list \<Rightarrow> ('k, 'v) unordered_map \<Rightarrow>
     ('v op_result list \<times> ('k, 'v) unordered_map) option" where
  "map_run h [] m = Some ([], m)"
| "map_run h (op # ops) m =
     (case map_step h op m of
        None \<Rightarrow> None
      | Some (r, m') \<Rightarrow>
          (case map_run h ops m' of
             None \<Rightarrow> None
           | Some (rs, m'') \<Rightarrow> Some (r # rs, m'')))"

fun failure_result :: "('k, 'v) map_op \<Rightarrow> 'v op_result" where
  "failure_result (Get k) = Pointer None"
| "failure_result (Put k v) = Flag False"
| "failure_result (Del k) = Flag False"
| "failure_result (Contains k) = Flag False"
| "failure_result (Reserve n) = Flag False"
| "failure_result Finalize = Flag False"
| "failure_result DeleteAllKeys = Void"
| "failure_result LockTableSize = Void"
| "failure_result UnlockTableSize = Void"

definition map_failed :: "(u32, nat) unordered_map" where
  "map_failed = unordered_map_init [False] 500"

subsection \<open>Contents of a table and the invariant of a transfer\<close>

text \<open>
  The entries of a table, bucket by bucket, without the capacities of the vectors; and
  the search of \<open>Bucket::get\<close> on the entries of one bucket.
\<close>

definition rows :: "('k, 'v) table \<Rightarrow> ('k, 'v) entry list list" where
  "rows t = map vec_buf (vec_buf (m_buckets t))"


text \<open>\<open>m_num_buckets\<close> is the number of buckets that the table has.\<close>

definition table_wf :: "('k, 'v) table \<Rightarrow> bool" where
  "table_wf t \<longleftrightarrow> m_num_buckets t = length (rows t)"


definition rows_distinct :: "('k, 'v) table \<Rightarrow> bool" where
  "rows_distinct t \<longleftrightarrow> list_all (\<lambda>r. distinct (map key_val r)) (rows t)"


text \<open>
  What \<open>get\<close> finds for a key in the \<open>TRANSFER\<close> state: the value in the secondary table
  and, if that is null, the value in the main table.
\<close>

definition transfer_get ::
  "('k \<Rightarrow> u32) \<Rightarrow> ('k, 'v) table \<Rightarrow> ('k, 'v) table \<Rightarrow> 'k \<Rightarrow> 'v option" where
  "transfer_get h main sec key =
     (case table_get h sec key of None \<Rightarrow> table_get h main key | Some v \<Rightarrow> Some v)"




subsection \<open>Scenarios\<close>

text \<open>The default map of \<open>uint32_t\<close> keys with an allocator that never fails.\<close>

definition map_default :: "(u32, nat) unordered_map" where
  "map_default = unordered_map_init [] 500"


text \<open>
  A map built with \<open>max_load_factor = 0.05\<close> as in the test \<open>MapTest.BasicTest\<close> (5 percent:
  every operation in the \<open>STABLE\<close> state starts a resize) after \<open>put(1, 10)\<close>, which leaves it
  in the \<open>TRANSFER\<close> state with the key 1 in the main table; \<open>map_in_transfer_failing\<close> is the
  same map with an allocator that fails from then on.
\<close>

definition map_in_transfer :: "(u32, nat) unordered_map" where
  "map_in_transfer = snd (put hash_u32 (unordered_map_init [] 5) 1 10)"

definition map_in_transfer_failing :: "(u32, nat) unordered_map" where
  "map_in_transfer_failing =
     snd (put hash_u32 (unordered_map_init [True, True, True, True, True, True, False] 5) 1 10)"





section \<open>Ring buffer: proofs\<close>

subsection \<open>Arithmetic of well-formed buffers\<close>

lemma rb_wf_nat:
  assumes "rb_wf rb"
  shows "0 < unat (m_capacity rb)"
    and "unat (m_writable_capacity rb) = unat (m_capacity rb) - 1"
    and "unat (m_read_index rb) < unat (m_capacity rb)"
    and "unat (m_write_index rb) < unat (m_capacity rb)"
    and "length (m_buf rb) = unat (m_capacity rb)"
    and "unat (m_capacity rb) < 2 ^ 32"
proof -
  show c: "0 < unat (m_capacity rb)" using assms by (auto simp: rb_wf_def unat_gt_0)
  have "1 \<le> m_capacity rb" using c by (simp add: word_le_nat_alt)
  then show "unat (m_writable_capacity rb) = unat (m_capacity rb) - 1"
    using assms by (simp add: rb_wf_def unat_sub)
  show "unat (m_read_index rb) < unat (m_capacity rb)"
    using assms by (simp add: rb_wf_def word_less_nat_alt)
  show "unat (m_write_index rb) < unat (m_capacity rb)"
    using assms by (simp add: rb_wf_def word_less_nat_alt)
  show "length (m_buf rb) = unat (m_capacity rb)" using assms by (simp add: rb_wf_def)
  show "unat (m_capacity rb) < 2 ^ 32" using unsigned_less [of "m_capacity rb"] by simp
qed

lemma unat_until_end:
  assumes "rb_wf rb" "unat x < unat (m_capacity rb)"
  shows "unat (m_writable_capacity rb - x) = unat (m_capacity rb) - 1 - unat x"
    and "unat (m_writable_capacity rb - x + 1) = unat (m_capacity rb) - unat x"
proof -
  have le: "x \<le> m_writable_capacity rb"
    using assms rb_wf_nat(2)[OF assms(1)] by (simp add: word_le_nat_alt)
  show a: "unat (m_writable_capacity rb - x) = unat (m_capacity rb) - 1 - unat x"
    using le rb_wf_nat(2)[OF assms(1)] by (simp add: unat_sub)
  have "unat (m_writable_capacity rb - x) + unat (1::u32) < 2 ^ LENGTH(32)"
    using a rb_wf_nat(6)[OF assms(1)] rb_wf_nat(1)[OF assms(1)] by simp
  then have "unat (m_writable_capacity rb - x + 1) = unat (m_writable_capacity rb - x) + unat (1::u32)"
    by (simp only: unat_add_lem)
  then show "unat (m_writable_capacity rb - x + 1) = unat (m_capacity rb) - unat x"
    using a assms(2) by simp
qed

lemma unat_gap:
  fixes r w :: u32
  assumes "w < r"
  shows "unat (r - w - 1) = unat r - unat w - 1"
proof -
  have "w \<le> r" using assms by simp
  then have a: "unat (r - w) = unat r - unat w" by (simp add: unat_sub)
  have "0 < unat (r - w)" using a assms by (simp add: word_less_nat_alt)
  then have "1 \<le> r - w" by (simp add: word_le_nat_alt)
  then show ?thesis using a by (simp add: unat_sub)
qed


lemma memcpy_in_length:
  "doff + n \<le> length dst \<Longrightarrow> length (memcpy_in dst doff src soff n) = length dst"
  by (simp add: memcpy_in_def)

lemma memcpy_in_nth:
  assumes "doff + n \<le> length dst" "i < length dst"
  shows "memcpy_in dst doff src soff n ! i =
           (if doff \<le> i \<and> i < doff + n then src (soff + (i - doff)) else dst ! i)"
  using assms by (auto simp: memcpy_in_def nth_append)

lemma mod_wrap:
  fixes i w c :: nat
  assumes "i < c" "w < c"
  shows "(i + c - w) mod c = (if w \<le> i then i - w else i + c - w)"
proof (cases "w \<le> i")
  case True
  then have "i + c - w = (i - w) + c" by simp
  then have "(i + c - w) mod c = (i - w) mod c" by (simp only: mod_add_self2)
  moreover have "i - w < c" using assms by simp
  ultimately show ?thesis using True by simp
next
  case False
  then show ?thesis using assms by simp
qed

lemma approx_size_nat:
  assumes wf: "rb_wf rb"
  shows "unat (approx_size rb) =
           (unat (m_write_index rb) + unat (m_capacity rb) - unat (m_read_index rb))
             mod unat (m_capacity rb)"
proof -
  note n = rb_wf_nat[OF wf]
  show ?thesis
  proof (cases "m_read_index rb \<le> m_write_index rb")
    case True
    then have "unat (m_read_index rb) \<le> unat (m_write_index rb)" by (simp add: word_le_nat_alt)
    then show ?thesis using True n
      by (simp add: approx_size_def get_bytes_written_def unat_sub mod_wrap)
  next
    case False
    then have lt: "unat (m_write_index rb) < unat (m_read_index rb)"
      by (simp add: word_le_nat_alt not_le)
    have a: "unat (m_writable_capacity rb - m_read_index rb + 1)
              = unat (m_capacity rb) - unat (m_read_index rb)"
      by (rule unat_until_end(2)[OF wf n(3)])
    have "unat (m_writable_capacity rb - m_read_index rb + 1) + unat (m_write_index rb)
            < 2 ^ LENGTH(32)"
      using a lt n by simp
    then have "unat (m_writable_capacity rb - m_read_index rb + 1 + m_write_index rb)
            = unat (m_writable_capacity rb - m_read_index rb + 1) + unat (m_write_index rb)"
      by (simp only: unat_add_lem)
    then show ?thesis using False a lt n
      by (simp add: approx_size_def get_bytes_written_def mod_wrap)
  qed
qed

lemma approx_size_le:
  assumes wf: "rb_wf rb"
  shows "unat (approx_size rb) \<le> unat (m_capacity rb) - 1"
proof -
  have "unat (approx_size rb) < unat (m_capacity rb)"
    using rb_wf_nat(1)[OF wf] by (simp add: approx_size_nat[OF wf])
  then show ?thesis by simp
qed

lemma space_left_nat:
  assumes wf: "rb_wf rb"
  shows "unat (m_writable_capacity rb - approx_size rb)
           = unat (m_capacity rb) - 1 - unat (approx_size rb)"
proof -
  have "approx_size rb \<le> m_writable_capacity rb"
    using approx_size_le[OF wf] rb_wf_nat(2)[OF wf] by (simp add: word_le_nat_alt)
  then show ?thesis using rb_wf_nat(2)[OF wf] by (simp add: unat_sub)
qed

lemma priv_write_buf:
  assumes wf: "rb_wf rb"
  shows "fst (priv_write rb inp amt (m_write_index rb) (m_read_index rb)) =
     (if unat (m_read_index rb) \<le> unat (m_write_index rb)
      then memcpy_in
             (memcpy_in (m_buf rb) (unat (m_write_index rb)) inp 0
                (unat (m_capacity rb) - unat (m_write_index rb)))
             0 inp (unat (m_capacity rb) - unat (m_write_index rb))
             (unat amt - (unat (m_capacity rb) - unat (m_write_index rb)))
      else memcpy_in (m_buf rb) (unat (m_write_index rb)) inp 0 (unat amt))"
proof -
  note n = rb_wf_nat[OF wf]
  have ue: "unat (m_writable_capacity rb - m_write_index rb + 1)
              = unat (m_capacity rb) - unat (m_write_index rb)"
    by (rule unat_until_end(2)[OF wf n(4)])
  have fb: "unat (if m_writable_capacity rb - m_write_index rb + 1 > amt then 0
                  else amt - (m_writable_capacity rb - m_write_index rb + 1))
            = unat amt - (unat (m_capacity rb) - unat (m_write_index rb))"
  proof (cases "m_writable_capacity rb - m_write_index rb + 1 > amt")
    case True
    then have "unat amt < unat (m_capacity rb) - unat (m_write_index rb)"
      using ue by (simp add: word_less_nat_alt)
    then show ?thesis using True by simp
  next
    case False
    then have "m_writable_capacity rb - m_write_index rb + 1 \<le> amt" by simp
    then show ?thesis using False ue by (simp add: unat_sub)
  qed
  show ?thesis
    using ue fb by (simp add: priv_write_def Let_def word_le_nat_alt)
qed

lemma memcpy_in2_nth:
  fixes c w fb :: nat
  assumes len: "length buf = c" and wc: "w < c" and fbc: "fb \<le> c" and i: "i < c"
  shows "memcpy_in (memcpy_in buf w inp 0 (c - w)) 0 inp (c - w) fb ! i =
           (if i < fb then inp (c - w + i) else if w \<le> i then inp (i - w) else buf ! i)"
proof -
  define ue where "ue = c - w"
  have r1: "w + ue \<le> length buf" using wc len by (simp add: ue_def)
  have l1: "length (memcpy_in buf w inp 0 ue) = c" using r1 len by (simp add: memcpy_in_length)
  have r2: "0 + fb \<le> length (memcpy_in buf w inp 0 ue)" using l1 fbc by simp
  have i1: "i < length (memcpy_in buf w inp 0 ue)" using l1 i by simp
  have i0: "i < length buf" using len i by simp
  have e2: "memcpy_in (memcpy_in buf w inp 0 ue) 0 inp ue fb ! i =
              (if 0 \<le> i \<and> i < 0 + fb then inp (ue + (i - 0)) else memcpy_in buf w inp 0 ue ! i)"
    by (rule memcpy_in_nth[OF r2 i1])
  have e1: "memcpy_in buf w inp 0 ue ! i =
              (if w \<le> i \<and> i < w + ue then inp (0 + (i - w)) else buf ! i)"
    by (rule memcpy_in_nth[OF r1 i0])
  have "w + ue = c" using wc by (simp add: ue_def)
  then show ?thesis using e1 e2 i unfolding ue_def[symmetric] by simp
qed

lemma memcpy_in1_nth:
  fixes c w a :: nat
  assumes len: "length buf = c" and wa: "w + a \<le> c" and i: "i < c"
  shows "memcpy_in buf w inp 0 a ! i = (if w \<le> i \<and> i < w + a then inp (i - w) else buf ! i)"
proof -
  have r1: "w + a \<le> length buf" using wa len by simp
  have i0: "i < length buf" using len i by simp
  show ?thesis using memcpy_in_nth[OF r1 i0, of inp 0] by simp
qed

lemma mod_wrap_add:
  fixes x c :: nat
  assumes "c \<le> x" "x < 2 * c"
  shows "x mod c = x - c"
proof -
  have "x = (x - c) + c" using assms by simp
  then have "x mod c = (x - c) mod c" by (metis mod_add_self2)
  then show ?thesis using assms by simp
qed

lemma priv_write_props:
  assumes wf: "rb_wf rb"
    and fit: "unat amt \<le> unat (m_capacity rb) - 1 - unat (approx_size rb)"
  shows "length (fst (priv_write rb inp amt (m_write_index rb) (m_read_index rb)))
           = unat (m_capacity rb)"
    and "\<And>j. j < unat amt \<Longrightarrow>
           fst (priv_write rb inp amt (m_write_index rb) (m_read_index rb))
             ! ((unat (m_write_index rb) + j) mod unat (m_capacity rb)) = inp j"
    and "\<And>i. i < unat (approx_size rb) \<Longrightarrow>
           fst (priv_write rb inp amt (m_write_index rb) (m_read_index rb))
             ! ((unat (m_read_index rb) + i) mod unat (m_capacity rb))
           = m_buf rb ! ((unat (m_read_index rb) + i) mod unat (m_capacity rb))"
proof -
  define c where "c = unat (m_capacity rb)"
  define w where "w = unat (m_write_index rb)"
  define r where "r = unat (m_read_index rb)"
  define a where "a = unat amt"
  define buf where "buf = m_buf rb"
  define fb where "fb = a - (c - w)"
  note n = rb_wf_nat[OF wf]
  have c0: "0 < c" and rc: "r < c" and wc: "w < c" and len: "length buf = c"
    using n by (simp_all add: c_def r_def w_def buf_def)
  have st: "unat (approx_size rb) = (w + c - r) mod c"
    using approx_size_nat[OF wf] by (simp add: c_def r_def w_def)
  have fit': "a \<le> c - 1 - (w + c - r) mod c" using fit st by (simp add: a_def c_def)
  let ?B = "fst (priv_write rb inp amt (m_write_index rb) (m_read_index rb))"
  have B: "?B = (if r \<le> w then memcpy_in (memcpy_in buf w inp 0 (c - w)) 0 inp (c - w) fb
                 else memcpy_in buf w inp 0 a)"
    using priv_write_buf[OF wf, of inp amt] by (simp add: c_def r_def w_def a_def buf_def fb_def)
  have fbc: "fb \<le> c" using fit' by (simp add: fb_def)
  have goal1: "length ?B = c"
  proof (cases "r \<le> w")
    case True
    have l1: "length (memcpy_in buf w inp 0 (c - w)) = c"
      using wc len by (simp add: memcpy_in_length)
    then show ?thesis using True B fbc by (simp add: memcpy_in_length)
  next
    case False
    then have "(w + c - r) mod c = w + c - r" using rc wc by simp
    then have "w + a \<le> c" using fit' False rc by simp
    then show ?thesis using False B len by (simp add: memcpy_in_length)
  qed
  have goal2: "?B ! ((w + j) mod c) = inp j" if j: "j < a" for j
  proof (cases "r \<le> w")
    case True
    then have stm: "(w + c - r) mod c = w - r" using mod_wrap[OF wc rc] by simp
    have fa: "a \<le> c - 1 - (w - r)" using fit' stm by simp
    show ?thesis
    proof (cases "w + j < c")
      case lt: True
      then have p: "(w + j) mod c = w + j" by simp
      have nfb: "\<not> (w + j < fb)" using fa True by (simp add: fb_def)
      show ?thesis
        using B True p nfb memcpy_in2_nth[OF len wc fbc lt, of inp] by simp
    next
      case ge: False
      have p: "(w + j) mod c = w + j - c"
        using ge wc j fa by (intro mod_wrap_add) simp_all
      have pc: "w + j - c < c" using wc j fa by simp
      have infb: "w + j - c < fb" using ge j wc unfolding fb_def by arith
      have "c - w + (w + j - c) = j" using ge wc by simp
      then show ?thesis
        using B True p infb memcpy_in2_nth[OF len wc fbc pc, of inp] by simp
    qed
  next
    case False
    then have stm: "(w + c - r) mod c = w + c - r" using rc wc by simp
    have fa: "w + a < r" using fit' stm False rc by simp
    have wa: "w + a \<le> c" using fa rc by simp
    have p: "(w + j) mod c = w + j" using j fa rc by simp
    have pc: "w + j < c" using j fa rc by simp
    show ?thesis using B False p j memcpy_in1_nth[OF len wa pc, of inp] by simp
  qed
  have goal3: "?B ! ((r + i) mod c) = buf ! ((r + i) mod c)" if i: "i < (w + c - r) mod c" for i
  proof (cases "r \<le> w")
    case True
    then have stm: "(w + c - r) mod c = w - r" using mod_wrap[OF wc rc] by simp
    have fa: "a \<le> c - 1 - (w - r)" using fit' stm by simp
    have pw: "r + i < w" using i stm by simp
    then have p: "(r + i) mod c = r + i" using wc by simp
    have pc: "r + i < c" using pw wc by simp
    have nfb: "\<not> (r + i < fb)" using fa True by (simp add: fb_def)
    show ?thesis using B True p nfb pw memcpy_in2_nth[OF len wc fbc pc, of inp] by simp
  next
    case False
    then have stm: "(w + c - r) mod c = w + c - r" using rc wc by simp
    have fa: "w + a < r" using fit' stm False rc by simp
    have wa: "w + a \<le> c" using fa rc by simp
    have pc: "(r + i) mod c < c" using c0 by simp
    have out: "\<not> (w \<le> (r + i) mod c \<and> (r + i) mod c < w + a)"
    proof (cases "r + i < c")
      case True
      then show ?thesis using fa by simp
    next
      case ge: False
      have "(r + i) mod c = r + i - c"
        using ge rc wc i stm by (intro mod_wrap_add) simp_all
      moreover have "r + i - c < w" using i stm ge by simp
      ultimately show ?thesis by simp
    qed
    show ?thesis using B False out memcpy_in1_nth[OF len wa pc, of inp] by auto
  qed
  show "length ?B = unat (m_capacity rb)" using goal1 by (simp add: c_def)
  show "\<And>j. j < unat amt \<Longrightarrow> ?B ! ((unat (m_write_index rb) + j) mod unat (m_capacity rb)) = inp j"
    using goal2 by (simp add: c_def w_def a_def)
  show "\<And>i. i < unat (approx_size rb) \<Longrightarrow>
           ?B ! ((unat (m_read_index rb) + i) mod unat (m_capacity rb))
           = m_buf rb ! ((unat (m_read_index rb) + i) mod unat (m_capacity rb))"
    using goal3 st by (simp add: c_def r_def w_def buf_def)
qed

lemma stored_after_write:
  fixes r w c n :: nat
  assumes "r < c" "w < c" "(w + c - r) mod c + n < c"
  shows "((w + n) mod c + c - r) mod c = (w + c - r) mod c + n"
proof -
  have "((w + n) mod c + c - r) mod c = ((w + n) mod c + (c - r)) mod c"
    using assms(1) by simp
  also have "\<dots> = (w + n + (c - r)) mod c" by (simp add: mod_add_left_eq)
  also have "\<dots> = ((w + c - r) + n) mod c"
  proof -
    have "w + n + (c - r) = (w + c - r) + n" using assms(1) by simp
    then show ?thesis by (simp only:)
  qed
  also have "\<dots> = ((w + c - r) mod c + n) mod c" by (simp add: mod_add_left_eq)
  also have "\<dots> = (w + c - r) mod c + n" using assms(3) by simp
  finally show ?thesis .
qed

lemma write_pos:
  fixes r w c j :: nat
  assumes "r < c" "w < c"
  shows "(r + ((w + c - r) mod c + j)) mod c = (w + j) mod c"
proof -
  have "r + ((w + c - r) mod c + j) = (w + c - r) mod c + (r + j)" by simp
  then have "(r + ((w + c - r) mod c + j)) mod c = ((w + c - r) mod c + (r + j)) mod c"
    by (simp only:)
  also have "\<dots> = ((w + c - r) + (r + j)) mod c" by (simp add: mod_add_left_eq)
  also have "\<dots> = (w + j + c) mod c"
  proof -
    have "(w + c - r) + (r + j) = w + j + c" using assms(1) by simp
    then show ?thesis by (simp only:)
  qed
  also have "\<dots> = (w + j) mod c" by simp
  finally show ?thesis .
qed

lemma write_rb_succeeds:
  assumes wf: "rb_wf rb" and bound: "unat (m_capacity rb) \<le> 2 ^ 31"
    and fit: "sz \<le> m_writable_capacity rb - approx_size rb" and nz: "sz \<noteq> 0"
  shows "\<exists>rb' reads. write_rb rb (Some inp) sz = (True, rb', reads) \<and>
           rb_wf rb' \<and>
           m_read_index rb' = m_read_index rb \<and>
           m_capacity rb' = m_capacity rb \<and>
           unat (approx_size rb') = unat (approx_size rb) + unat sz \<and>
           rb_contents rb' = rb_contents rb @ map inp [0..<unat sz]"
proof -
  define c where "c = unat (m_capacity rb)"
  define w where "w = unat (m_write_index rb)"
  define r where "r = unat (m_read_index rb)"
  define n where "n = unat sz"
  define st where "st = unat (approx_size rb)"
  note nt = rb_wf_nat[OF wf]
  have c0: "0 < c" and rc: "r < c" and wc: "w < c"
    using nt by (simp_all add: c_def r_def w_def)
  have stm: "st = (w + c - r) mod c"
    using approx_size_nat[OF wf] by (simp add: st_def c_def r_def w_def)
  have fitn: "n \<le> c - 1 - st"
    using fit space_left_nat[OF wf] by (simp add: word_le_nat_alt n_def c_def st_def)
  have stc: "st < c" using stm c0 by simp
  have le_wcap: "\<not> sz > m_writable_capacity rb"
  proof -
    have "unat sz \<le> unat (m_writable_capacity rb)" using fitn nt(2) by (simp add: n_def c_def)
    then show ?thesis by (simp add: word_le_nat_alt not_less)
  qed
  define B where "B = fst (priv_write rb inp sz (m_write_index rb) (m_read_index rb))"
  define R where "R = snd (priv_write rb inp sz (m_write_index rb) (m_read_index rb))"
  define w' where "w' = (m_write_index rb + sz) mod m_capacity rb"
  define rb' where "rb' = rb\<lparr> m_buf := B, m_write_index := w' \<rparr>"
  have minsz: "min sz (m_writable_capacity rb - approx_size rb) = sz" using fit by simp
  have res: "write_rb rb (Some inp) sz = (True, rb', R)"
    using le_wcap nz fit minsz
    by (simp add: write_rb_def Let_def approx_size_def[symmetric] split_def
          rb'_def B_def R_def w'_def not_less)
  have fit2: "unat sz \<le> unat (m_capacity rb) - 1 - unat (approx_size rb)"
    using fitn by (simp add: n_def c_def st_def)
  note pw = priv_write_props[OF wf fit2, where inp=inp]
  have nowrap: "unat (m_write_index rb) + unat sz < 2 ^ LENGTH(32)"
  proof -
    have "w + n < 2 * c" using wc fitn by simp
    moreover have "2 * c \<le> 2 ^ 32" using bound by (simp add: c_def)
    ultimately show ?thesis by (simp add: w_def n_def)
  qed
  have "unat (m_write_index rb + sz) = unat (m_write_index rb) + unat sz"
    using nowrap by (simp only: unat_add_lem)
  then have w'n: "unat w' = (w + n) mod c"
    by (simp add: w'_def unat_mod w_def n_def c_def)
  have w'lt: "w' < m_capacity rb"
    using w'n c0 by (simp add: word_less_nat_alt c_def)
  have wf': "rb_wf rb'"
    using wf w'lt pw(1) by (simp add: rb_wf_def rb'_def B_def)
  have st': "unat (approx_size rb') = st + n"
  proof -
    have "unat (approx_size rb') = (unat w' + c - r) mod c"
      using approx_size_nat[OF wf'] by (simp add: rb'_def c_def r_def)
    also have "\<dots> = ((w + n) mod c + c - r) mod c" by (simp add: w'n)
    also have "\<dots> = (w + c - r) mod c + n"
      using fitn stc stm by (intro stored_after_write[OF rc wc]) simp
    finally show ?thesis by (simp add: stm)
  qed
  have old: "B ! ((r + i) mod c) = m_buf rb ! ((r + i) mod c)" if "i < st" for i
    using pw(3)[of i] that by (simp add: B_def r_def c_def st_def)
  have new: "B ! ((w + j) mod c) = inp j" if "j < n" for j
    using pw(2)[of j] that by (simp add: B_def w_def c_def n_def)
  have cont: "rb_contents rb' = rb_contents rb @ map inp [0..<n]"
  proof (rule nth_equalityI)
    show "length (rb_contents rb') = length (rb_contents rb @ map inp [0..<n])"
      using st' by (simp add: rb_contents_def st_def)
  next
    fix i assume "i < length (rb_contents rb')"
    then have i: "i < st + n" using st' by (simp add: rb_contents_def)
    have lhs: "rb_contents rb' ! i = B ! ((r + i) mod c)"
      using i st' by (simp add: rb_contents_def rb'_def r_def c_def)
    show "rb_contents rb' ! i = (rb_contents rb @ map inp [0..<n]) ! i"
    proof (cases "i < st")
      case True
      then have "(rb_contents rb @ map inp [0..<n]) ! i = m_buf rb ! ((r + i) mod c)"
        by (simp add: nth_append rb_contents_def st_def r_def c_def)
      then show ?thesis using lhs old[OF True] by simp
    next
      case False
      define j where "j = i - st"
      have j: "j < n" and ij: "i = st + j" using False i by (simp_all add: j_def)
      have "(r + i) mod c = (w + j) mod c"
        unfolding ij stm by (rule write_pos[OF rc wc])
      moreover have "(rb_contents rb @ map inp [0..<n]) ! i = inp j"
        using False j by (simp add: nth_append rb_contents_def st_def[symmetric] j_def)
      ultimately show ?thesis using lhs new[OF j] by simp
    qed
  qed
  show ?thesis
    using res wf' st' cont by (auto simp: rb'_def st_def n_def)
qed

lemmas rb_eval = rb8_def rb8_w5_def rb8_w5_r5_def rb8_w5_r5_w4_def rb8_w5_r3_def rb5_def
  rb5_full_cycle_def ones_def zeros_def
  spsc_ringbuffer_init_def write_rb_def write_bytes_def read_def priv_write_def
  get_bytes_written_def approx_size_def compound_alloc_contig_def alloc_contig_def
  commit_write_def commit_read_def Let_def input_extent_def word_le_nat_alt word_less_nat_alt

lemma rb8_w5_r5_w4_fields:
  "m_write_index rb8_w5_r5_w4 = 1" "m_read_index rb8_w5_r5_w4 = 5"
  "m_capacity rb8_w5_r5_w4 = 8" "m_writable_capacity rb8_w5_r5_w4 = 7"
  by (simp_all add: rb_eval)

lemma rb_huge_fields:
  "m_capacity rb_huge = 4294967295" "m_writable_capacity rb_huge = 4294967294"
  "m_read_index rb_huge = 10" "m_write_index rb_huge = 4294967294"
  "length (m_buf rb_huge) = 4294967295"
  by (simp_all add: rb_huge_def commit_read_def commit_write_def spsc_ringbuffer_init_def)

lemma rb_wf_rb5_full_cycle: "rb_wf rb5_full_cycle"
  by (simp add: rb_wf_def rb_eval)

lemma rb_wf_rb8_w5: "rb_wf rb8_w5"
  by (simp add: rb_wf_def rb_eval memcpy_in_def)

subsection \<open>Claim C2: what \<open>write_bytes\<close> returns and how far it advances\<close>

text \<open>
  C2 (code bug). The claim: \<open>write_bytes(input, n)\<close> returns
  \<open>k = min(n, writable_capacity, free space)\<close> and the stored-byte count grows by exactly
  \<open>k\<close>. The returned value is that minimum, but the write index is advanced by the
  clamped \<open>sz\<close> instead of by \<open>amt_bytes_to_write\<close>. In a buffer of capacity 8 holding 5
  bytes (2 free), \<open>write_bytes(input, 5)\<close> returns 2 and leaves 2 bytes stored instead
  of 7: the five bytes stored before are lost to the reader.
\<close>

theorem C2_write_bytes_advances_by_request:
  "approx_size rb8_w5 = 5 \<and>
   m_writable_capacity rb8_w5 - approx_size rb8_w5 = 2 \<and>
   fst (write_bytes rb8_w5 (Some ones) 5) = 2 \<and>
   m_write_index (fst (snd (write_bytes rb8_w5 (Some ones) 5))) = 2 \<and>
   m_read_index (fst (snd (write_bytes rb8_w5 (Some ones) 5))) = 0 \<and>
   approx_size (fst (snd (write_bytes rb8_w5 (Some ones) 5))) = 2"
  by (simp add: rb_eval)

subsection \<open>Claim C3: the compound allocation scenarios\<close>

text \<open>
  C3 (counterexample). As the claim chains its steps, part (c) writes ``another 7 bytes''
  after part (b). Four bytes are stored then and three are free, so \<open>write\<close> rejects the
  seven bytes, the buffer is unchanged and the first segment still has size 3, not 0.
\<close>

theorem C3_write_seven_rejected:
  "write_rb rb8_w5_r5_w4 (Some ones) 7 = (False, rb8_w5_r5_w4, []) \<and>
   first_buf_sz (compound_alloc_contig (fst (snd (write_rb rb8_w5_r5_w4 (Some ones) 7)))) = 3"
  by (simp add: write_rb_def rb8_w5_r5_w4_fields get_bytes_written_def
        compound_alloc_contig_def Let_def word_le_nat_alt word_less_nat_alt)

text \<open>
  C3 (amended). For a buffer of capacity 8: (a) after writing 5 bytes the result is
  \<open>first_buf = &buf[5]\<close>, sizes 2 and 0, write ahead of read; (b) after then reading 5
  and writing 4 it is \<open>first_buf = &buf[1]\<close>, sizes 3 and 0, write not ahead of read;
  (c) after then writing the 3 bytes that are free, both sizes are 0, and in a fresh
  buffer after writing 7 bytes both sizes are 0 (the repository's ``full'' test);
  (d) in a separate run after writing 5 and reading 3 it is \<open>first_buf = &buf[5]\<close> of
  size 3 and \<open>second_buf = &buf[0]\<close> of size 2.
\<close>

theorem C3_compound_alloc_scenarios:
  "fst (write_rb rb8 (Some ones) 5) \<and>
   compound_alloc_contig rb8_w5 =
     \<lparr> first_buf = Some 5, second_buf = None, first_buf_sz = 2, second_buf_sz = 0,
       write_ahead_of_read = True \<rparr> \<and>
   fst (read rb8_w5 (Some zeros) 5) = 5 \<and>
   fst (write_rb rb8_w5_r5 (Some ones) 4) \<and>
   compound_alloc_contig rb8_w5_r5_w4 =
     \<lparr> first_buf = Some 1, second_buf = None, first_buf_sz = 3, second_buf_sz = 0,
       write_ahead_of_read = False \<rparr> \<and>
   fst (write_rb rb8_w5_r5_w4 (Some ones) 3) \<and>
   compound_alloc_contig (fst (snd (write_rb rb8_w5_r5_w4 (Some ones) 3))) =
     \<lparr> first_buf = None, second_buf = None, first_buf_sz = 0, second_buf_sz = 0,
       write_ahead_of_read = False \<rparr> \<and>
   fst (write_rb rb8 (Some ones) 7) \<and>
   compound_alloc_contig (fst (snd (write_rb rb8 (Some ones) 7))) =
     \<lparr> first_buf = None, second_buf = None, first_buf_sz = 0, second_buf_sz = 0,
       write_ahead_of_read = True \<rparr> \<and>
   fst (read rb8_w5 (Some zeros) 3) = 3 \<and>
   compound_alloc_contig rb8_w5_r3 =
     \<lparr> first_buf = Some 5, second_buf = Some 0, first_buf_sz = 3, second_buf_sz = 2,
       write_ahead_of_read = True \<rparr>"
  by (simp add: rb_eval)

subsection \<open>Claim C4: \<open>write\<close> is all or nothing\<close>

text \<open>
  For every well-formed buffer whose capacity is at most \<open>2^31\<close>, \<open>write\<close> is all or
  nothing: it returns false and changes nothing when the bytes exceed the writable
  capacity or the free space; it returns true when they fit, and then the reader's view
  is the old contents followed by the \<open>n\<close> bytes of \<open>input\<close>, the stored count has grown
  by \<open>n\<close> and the read index is untouched; a write of length zero returns true.
\<close>

theorem write_all_or_nothing_bounded:
  assumes wf: "rb_wf rb" and bound: "unat (m_capacity rb) \<le> 2 ^ 31"
  shows "(sz > m_writable_capacity rb \<or> sz > m_writable_capacity rb - approx_size rb
            \<longrightarrow> write_rb rb input sz = (False, rb, []))
       \<and> (sz \<le> m_writable_capacity rb - approx_size rb \<and> sz \<noteq> 0 \<longrightarrow>
            (\<exists>rb' reads. write_rb rb (Some inp) sz = (True, rb', reads) \<and>
               rb_wf rb' \<and> m_read_index rb' = m_read_index rb \<and>
               unat (approx_size rb') = unat (approx_size rb) + unat sz \<and>
               rb_contents rb' = rb_contents rb @ map inp [0..<unat sz]))
       \<and> write_rb rb input 0 = (True, rb, [])"
proof (intro conjI impI)
  assume a: "sz > m_writable_capacity rb \<or> sz > m_writable_capacity rb - approx_size rb"
  show "write_rb rb input sz = (False, rb, [])"
  proof (cases "sz > m_writable_capacity rb")
    case True
    then show ?thesis by (simp add: write_rb_def)
  next
    case False
    then have gt: "sz > m_writable_capacity rb - approx_size rb" using a by simp
    then have "sz \<noteq> 0" by (auto simp: word_less_nat_alt)
    then show ?thesis using False gt
      by (simp add: write_rb_def Let_def approx_size_def split: option.splits)
  qed
next
  assume "sz \<le> m_writable_capacity rb - approx_size rb \<and> sz \<noteq> 0"
  then show "\<exists>rb' reads. write_rb rb (Some inp) sz = (True, rb', reads) \<and>
               rb_wf rb' \<and> m_read_index rb' = m_read_index rb \<and>
               unat (approx_size rb') = unat (approx_size rb) + unat sz \<and>
               rb_contents rb' = rb_contents rb @ map inp [0..<unat sz]"
    using write_rb_succeeds[OF wf bound, of sz inp] by blast
next
  show "write_rb rb input 0 = (True, rb, [])"
    by (simp add: write_rb_def word_less_nat_alt)
qed

theorem write_all_or_nothing_bounded_witness:
  "rb_wf rb8_w5 \<and> unat (m_capacity rb8_w5) \<le> 2 ^ 31 \<and>
   write_rb rb8_w5 (Some ones) 3 = (False, rb8_w5, []) \<and>
   (\<exists>rb' reads. write_rb rb8_w5 (Some ones) 2 = (True, rb', reads) \<and>
      rb_contents rb' = rb_contents rb8_w5 @ map ones [0..<2]) \<and>
   write_rb rb8_w5 None 0 = (True, rb8_w5, [])"
proof -
  have b: "unat (m_capacity rb8_w5) \<le> 2 ^ 31" by (simp add: rb_eval)
  have f: "m_writable_capacity rb8_w5 - approx_size rb8_w5 = 2" by (simp add: rb_eval)
  note t = write_all_or_nothing_bounded[OF rb_wf_rb8_w5 b]
  have "write_rb rb8_w5 (Some ones) 3 = (False, rb8_w5, [])"
    using t[of 3 "Some ones" ones] f by (simp add: word_less_nat_alt)
  moreover have "\<exists>rb' reads. write_rb rb8_w5 (Some ones) 2 = (True, rb', reads) \<and>
      rb_contents rb' = rb_contents rb8_w5 @ map ones [0..<2]"
    using t[of 2 "Some ones" ones] f by auto
  moreover have "write_rb rb8_w5 None 0 = (True, rb8_w5, [])"
    using t[of 0 None ones] by simp
  ultimately show ?thesis using rb_wf_rb8_w5 b by simp
qed

text \<open>
  C4 (code bug). The claim: \<open>write\<close> returns true with all \<open>n\<close> bytes enqueued when they
  fit. The new write index is \<open>(write_index + sz) % m_capacity\<close> in 32-bit arithmetic,
  and the sum wraps when the capacity exceeds \<open>2^31\<close>. In the buffer of \<open>2^32 - 1\<close> bytes
  with read index 10 and write index \<open>2^32 - 2\<close>, ten bytes are free and a write of 5
  bytes returns true, but the write index becomes 3 instead of 4 and the stored count
  grows by 4: the fifth byte is never handed to the reader.
\<close>

theorem C4_write_index_wraps:
  "rb_wf rb_huge \<and>
   approx_size rb_huge = 4294967284 \<and>
   m_writable_capacity rb_huge - approx_size rb_huge = 10 \<and>
   fst (write_rb rb_huge (Some ones) 5) \<and>
   m_write_index (fst (snd (write_rb rb_huge (Some ones) 5))) = 3 \<and>
   approx_size (fst (snd (write_rb rb_huge (Some ones) 5))) = 4294967288"
  by (simp add: rb_wf_def rb_huge_fields write_rb_def approx_size_def get_bytes_written_def
        Let_def split_def word_le_nat_alt word_less_nat_alt)

subsection \<open>Claim C5: the contiguous region of \<open>alloc_contig\<close>\<close>

text \<open>
  C5 (counterexample). The claim gives the region as capacity minus write index (plus one
  if the read index is positive). In a fresh buffer of capacity 5 that is 5 bytes; a
  request for 10 bytes is cut down to 4, the writable capacity minus the write index.
\<close>

theorem C5_region_is_not_capacity_minus_write_index:
  "unat (fst (snd (alloc_contig rb5 10 False))) = 4 \<and>
   spec_contig_region (m_capacity rb5) (m_write_index rb5) (m_read_index rb5) = 5"
  by (simp add: rb_eval spec_contig_region_def)

text \<open>
  C5 (amended). For every well-formed buffer, \<open>alloc_contig\<close> returns a pointer at the
  write index. The available contiguous region is \<open>capacity - 1 - write_index\<close>, plus one
  byte if the read index is positive, when the write index is at or ahead of the read
  index, and \<open>read_index - write_index - 1\<close> otherwise. When the region is smaller than
  the requested size, the size is set to the region and the end-of-buffer flag is set to
  true exactly when the region reaches the physical end of the storage; otherwise both
  out-parameters keep their values.
\<close>

theorem C5_alloc_contig_region:
  assumes wf: "rb_wf rb" and res: "alloc_contig rb sz eob = (p, sz', eob')"
  shows "p = m_write_index rb \<and>
    (let c = unat (m_capacity rb); w = unat (m_write_index rb); r = unat (m_read_index rb);
         avail = (if r \<le> w then c - 1 - w + (if 0 < r then 1 else 0) else r - w - 1)
     in if avail < unat sz then unat sz' = avail \<and> (eob' \<longleftrightarrow> w + avail = c)
        else sz' = sz \<and> eob' = eob)"
proof -
  note n = rb_wf_nat[OF wf]
  note u = unat_until_end[OF wf n(4)]
  show ?thesis
  proof (cases "m_read_index rb \<le> m_write_index rb")
    case True
    then have le: "unat (m_read_index rb) \<le> unat (m_write_index rb)" by (simp add: word_le_nat_alt)
    show ?thesis
    proof (cases "m_read_index rb = 0")
      case True
      then show ?thesis using res n u le
        by (auto simp: alloc_contig_def Let_def word_less_nat_alt split: if_splits)
    next
      case False
      then have "0 < unat (m_read_index rb)" by (simp add: unat_gt_0)
      then show ?thesis using res n u le False True
        by (auto simp: alloc_contig_def Let_def word_less_nat_alt split: if_splits)
    qed
  next
    case False
    then have lt: "m_write_index rb < m_read_index rb" by simp
    then have ltn: "unat (m_write_index rb) < unat (m_read_index rb)" by (simp add: word_less_nat_alt)
    show ?thesis using res n unat_gap[OF lt] False ltn
      by (auto simp: alloc_contig_def Let_def word_less_nat_alt split: if_splits)
  qed
qed

theorem C5_alloc_contig_region_witness:
  "rb_wf rb5_full_cycle \<and> m_write_index rb5_full_cycle = 4 \<and> m_read_index rb5_full_cycle = 4 \<and>
   alloc_contig rb5_full_cycle 4 False = (4, 1, True)"
proof -
  have e: "alloc_contig rb5_full_cycle 4 False = (4, 1, True)" by (simp add: rb_eval)
  have "(1::nat) < 4 \<and> (True \<longleftrightarrow> (4::nat) + 1 = 5)" by simp
  then show ?thesis
    using C5_alloc_contig_region[OF rb_wf_rb5_full_cycle e] rb_wf_rb5_full_cycle e
    by (simp add: rb_eval)
qed

subsection \<open>Claim C9: how much of \<open>input\<close> is read\<close>

text \<open>
  C9 (code bug). The claim: \<open>write(input, n)\<close> and \<open>write_bytes(input, n)\<close> read at most
  \<open>n\<close> bytes of \<open>input\<close>. When the write index is at or ahead of the read index,
  \<open>priv_write\<close> copies \<open>until_end_of_buffer\<close> bytes whatever the amount to write is. In
  a fresh buffer of capacity 8 a write of one byte reads the input offsets 0 to 7.
\<close>

theorem C9_write_reads_to_end_of_buffer:
  "fst (write_rb rb8 (Some ones) 1) \<and>
   snd (snd (write_rb rb8 (Some ones) 1)) = [(0, 8), (8, 0)] \<and>
   input_extent (snd (snd (write_rb rb8 (Some ones) 1))) = 8 \<and>
   fst (write_bytes rb8 (Some ones) 1) = 1 \<and>
   input_extent (snd (snd (write_bytes rb8 (Some ones) 1))) = 8"
  by (simp add: rb_eval)

section \<open>Smart pointers: proofs\<close>

lemma unat_word_succ:
  fixes x :: u32
  assumes "unat x + 1 < 2 ^ 32"
  shows "unat (x + 1) = unat x + 1"
proof -
  have "unat x + unat (1::u32) < 2 ^ LENGTH(32)" using assms by simp
  then have "unat (x + 1) = unat x + unat (1::u32)" by (simp only: unat_add_lem)
  then show ?thesis by simp
qed

lemma unat_word_pred:
  fixes x :: u32
  assumes "0 < unat x"
  shows "unat (x - 1) = unat x - 1"
proof -
  have "1 \<le> x" using assms by (simp add: word_le_nat_alt)
  then show ?thesis by (simp add: unat_sub)
qed

lemma unat_eq_1: "(x::u32) = 1 \<longleftrightarrow> unat x = 1"
  using word_unat_eq_iff[of x 1] by simp

lemma unat_eq_0': "(x::u32) = 0 \<longleftrightarrow> unat x = 0"
  by (simp add: unat_eq_0)

lemma blk_ok_first: "blk_ok (inc_strong control_blk_init) 1 0"
  by (simp add: blk_ok_def inc_strong_def control_blk_init_def Let_def)

lemma blk_ok_inc_strong:
  assumes "blk_ok cb ns nw" "0 < ns" "ns + 1 < 2 ^ 32"
  shows "blk_ok (inc_strong cb) (ns + 1) nw"
  using assms
  by (auto simp: blk_ok_def inc_strong_def Let_def unat_word_succ unat_eq_0')

lemma blk_ok_inc_weak:
  assumes "blk_ok cb ns nw" "0 < ns \<or> 0 < nw" "nw + 1 + (if 0 < ns then 1 else 0) < 2 ^ 32"
  shows "blk_ok (inc_weak cb) ns (nw + 1)"
  using assms
  by (auto simp: blk_ok_def inc_weak_def unat_word_succ)

lemma blk_ok_dec_weak:
  assumes "blk_ok cb ns (Suc nw)"
  shows "fst (dec_weak cb) = (ns = 0 \<and> nw = 0) \<and>
         blk_ok (if fst (dec_weak cb) then deallocate_blk (snd (dec_weak cb)) else snd (dec_weak cb)) ns nw"
  using assms
  by (auto simp: blk_ok_def dec_weak_def Let_def deallocate_blk_def unat_word_pred unat_eq_1)

lemma blk_ok_dec_strong:
  assumes "blk_ok cb (Suc ns) nw"
  shows "fst (dec_strong cb) = (ns = 0 \<and> nw = 0) \<and>
         blk_ok (if fst (dec_strong cb) then deallocate_blk (snd (dec_strong cb)) else snd (dec_strong cb)) ns nw"
  using assms
  by (auto simp: blk_ok_def dec_strong_def dec_weak_def deinit_def Let_def deallocate_blk_def
        unat_word_pred unat_eq_1 unat_eq_0')

lemma blk_ok_live: "blk_ok cb ns nw \<Longrightarrow> 0 < ns \<or> 0 < nw \<Longrightarrow> dealloc_calls cb = 0"
  by (auto simp: blk_ok_def)

lemma n_ptr_mset: "n_ptr hs a = count (mset hs) (Ptr a)"
  by (simp add: n_ptr_def count_mset)

lemma n_ptr_le_length: "n_ptr hs a \<le> length hs"
  by (simp add: n_ptr_def count_le_length)

lemma n_ptr_update:
  assumes "i < length hs"
  shows "n_ptr (hs[i := h]) a =
           n_ptr hs a - (if hs ! i = Ptr a then 1 else 0) + (if h = Ptr a then 1 else 0)"
  using assms by (simp add: n_ptr_mset mset_update)

lemma n_ptr_nth_pos:
  assumes "i < length hs" "hs ! i = Ptr a"
  shows "0 < n_ptr hs a"
proof -
  have "Ptr a \<in> set hs" using assms by (metis nth_mem)
  then show ?thesis by (simp add: n_ptr_mset)
qed

lemma n_ptr_new_handle:
  assumes "new_handle hs p h = Some hs'"
  shows "n_ptr hs' a = n_ptr hs a + (if h = Ptr a then 1 else 0)"
    and "length hs \<le> length hs'"
  using assms
  by (auto simp: new_handle_def n_ptr_update split: if_splits) (simp_all add: n_ptr_def)

lemma live_SomeD:
  assumes "live hs p = Some h"
  shows "p < length hs" "hs ! p = h" "h \<noteq> Dead"
  using assms by (auto simp: live_def split: if_splits)

lemma blocks_ok_cong:
  assumes "blocks_ok bs S W" "\<And>a. a < length bs \<Longrightarrow> S' a = S a" "\<And>a. a < length bs \<Longrightarrow> W' a = W a"
  shows "blocks_ok bs S' W'"
  using assms by (simp add: blocks_ok_def)

lemma blocks_ok_update:
  assumes "blocks_ok bs S W" "a < length bs" "blk_ok cb (S' a) (W' a)"
    "\<And>b. b < length bs \<Longrightarrow> b \<noteq> a \<Longrightarrow> S' b = S b \<and> W' b = W b"
  shows "blocks_ok (bs[a := cb]) S' W'"
  using assms by (auto simp: blocks_ok_def nth_list_update)

lemma shared_acquire_ok:
  assumes ok: "blocks_ok bs S W"
    and h: "h = Null \<or> (\<exists>a. h = Ptr a \<and> a < length bs \<and> 0 < S a \<and> S a + 1 < 2 ^ 32)"
  shows "\<exists>bs'. shared_acquire bs h = Some bs' \<and> length bs' = length bs \<and>
           blocks_ok bs' (\<lambda>b. S b + (if h = Ptr b then 1 else 0)) W"
proof (cases h)
  case Dead
  then show ?thesis using h by simp
next
  case Null
  then show ?thesis using ok by (simp add: shared_acquire_def)
next
  case (Ptr a)
  then have a: "a < length bs" "0 < S a" "S a + 1 < 2 ^ 32" using h by auto
  have b: "blk_ok (bs ! a) (S a) (W a)" using ok a by (simp add: blocks_ok_def)
  have live: "blk_at bs a = Some (bs ! a)"
    using blk_ok_live[OF b] a by (simp add: blk_at_def)
  have "blocks_ok (bs[a := inc_strong (bs ! a)]) (\<lambda>b. S b + (if h = Ptr b then 1 else 0)) W"
    using blk_ok_inc_strong[OF b a(2) a(3)] Ptr
    by (intro blocks_ok_update[OF ok a(1)]) auto
  then show ?thesis using live Ptr by (simp add: shared_acquire_def)
qed

lemma weak_acquire_ok:
  assumes ok: "blocks_ok bs S W"
    and h: "h = Null \<or> (\<exists>a. h = Ptr a \<and> a < length bs \<and> (0 < S a \<or> 0 < W a) \<and>
            W a + 1 + (if 0 < S a then 1 else 0) < 2 ^ 32)"
  shows "\<exists>bs'. weak_acquire bs h = Some bs' \<and> length bs' = length bs \<and>
           blocks_ok bs' S (\<lambda>b. W b + (if h = Ptr b then 1 else 0))"
proof (cases h)
  case Dead
  then show ?thesis using h by simp
next
  case Null
  then show ?thesis using ok by (simp add: weak_acquire_def)
next
  case (Ptr a)
  then have a: "a < length bs" "0 < S a \<or> 0 < W a"
    "W a + 1 + (if 0 < S a then 1 else 0) < 2 ^ 32" using h by auto
  have b: "blk_ok (bs ! a) (S a) (W a)" using ok a by (simp add: blocks_ok_def)
  have live: "blk_at bs a = Some (bs ! a)"
    using blk_ok_live[OF b] a by (simp add: blk_at_def)
  have "blocks_ok (bs[a := inc_weak (bs ! a)]) S (\<lambda>b. W b + (if h = Ptr b then 1 else 0))"
    using blk_ok_inc_weak[OF b a(2) a(3)] Ptr
    by (intro blocks_ok_update[OF ok a(1)]) auto
  then show ?thesis using live Ptr by (simp add: weak_acquire_def)
qed

lemma shared_reset_ok:
  assumes ok: "blocks_ok bs S W"
    and h: "h = Null \<or> (\<exists>a. h = Ptr a \<and> a < length bs \<and> 0 < S a)"
  shows "\<exists>bs'. shared_reset bs h = Some bs' \<and> length bs' = length bs \<and>
           blocks_ok bs' (\<lambda>b. S b - (if h = Ptr b then 1 else 0)) W"
proof (cases h)
  case Dead
  then show ?thesis using h by simp
next
  case Null
  then show ?thesis using ok by (simp add: shared_reset_def)
next
  case (Ptr a)
  then have a: "a < length bs" "0 < S a" using h by auto
  have b: "blk_ok (bs ! a) (S a) (W a)" using ok a by (simp add: blocks_ok_def)
  have live: "blk_at bs a = Some (bs ! a)"
    using blk_ok_live[OF b] a by (simp add: blk_at_def)
  have "blk_ok (bs ! a) (Suc (S a - 1)) (W a)" using b a(2) by simp
  note d = blk_ok_dec_strong[OF this]
  have "blocks_ok (bs[a := (if fst (dec_strong (bs ! a)) then deallocate_blk (snd (dec_strong (bs ! a)))
                            else snd (dec_strong (bs ! a)))])
          (\<lambda>b. S b - (if h = Ptr b then 1 else 0)) W"
    using d Ptr by (intro blocks_ok_update[OF ok a(1)]) auto
  then show ?thesis using live Ptr by (simp add: shared_reset_def split_def Let_def)
qed

lemma weak_reset_ok:
  assumes ok: "blocks_ok bs S W"
    and h: "h = Null \<or> (\<exists>a. h = Ptr a \<and> a < length bs \<and> 0 < W a)"
  shows "\<exists>bs'. weak_reset bs h = Some bs' \<and> length bs' = length bs \<and>
           blocks_ok bs' S (\<lambda>b. W b - (if h = Ptr b then 1 else 0))"
proof (cases h)
  case Dead
  then show ?thesis using h by simp
next
  case Null
  then show ?thesis using ok by (simp add: weak_reset_def)
next
  case (Ptr a)
  then have a: "a < length bs" "0 < W a" using h by auto
  have b: "blk_ok (bs ! a) (S a) (W a)" using ok a by (simp add: blocks_ok_def)
  have live: "blk_at bs a = Some (bs ! a)"
    using blk_ok_live[OF b] a by (simp add: blk_at_def)
  have "blk_ok (bs ! a) (S a) (Suc (W a - 1))" using b a(2) by simp
  note d = blk_ok_dec_weak[OF this]
  have "blocks_ok (bs[a := (if fst (dec_weak (bs ! a)) then deallocate_blk (snd (dec_weak (bs ! a)))
                            else snd (dec_weak (bs ! a)))])
          S (\<lambda>b. W b - (if h = Ptr b then 1 else 0))"
    using d Ptr by (intro blocks_ok_update[OF ok a(1)]) auto
  then show ?thesis using live Ptr by (simp add: weak_reset_def split_def Let_def)
qed

lemma ptr_invI:
  assumes "blocks_ok (blocks s') S W"
    and "\<And>a. n_ptr (shared s') a = S a" and "\<And>a. n_ptr (weak s') a = W a"
    and "\<And>a. length (blocks s') \<le> a \<Longrightarrow> S a = 0 \<and> W a = 0"
  shows "ptr_inv s'"
proof -
  have "n_ptr (shared s') = S" "n_ptr (weak s') = W" using assms(2,3) by auto
  then show ?thesis using assms(1,4) by (simp add: ptr_inv_def)
qed

lemma ptr_inv_blocks: "ptr_inv s \<Longrightarrow> blocks_ok (blocks s) (n_ptr (shared s)) (n_ptr (weak s))"
  by (simp add: ptr_inv_def)

lemma ptr_inv_range:
  assumes "ptr_inv s" "0 < n_ptr (shared s) a \<or> 0 < n_ptr (weak s) a"
  shows "a < length (blocks s)"
  using assms unfolding ptr_inv_def by (metis not_le_imp_less less_numeral_extra(3))

lemma ptr_inv_zero:
  assumes "ptr_inv s" "length (blocks s) \<le> a"
  shows "n_ptr (shared s) a = 0" "n_ptr (weak s) a = 0"
  using assms by (simp_all add: ptr_inv_def)

lemma shared_handle:
  assumes inv: "ptr_inv s" and l: "live (shared s) p = Some h"
  shows "h = Null \<or> (\<exists>a. h = Ptr a \<and> a < length (blocks s) \<and> 0 < n_ptr (shared s) a)"
proof (cases h)
  case Dead
  then show ?thesis using live_SomeD(3)[OF l] by simp
next
  case Null
  then show ?thesis by simp
next
  case (Ptr a)
  have pos: "0 < n_ptr (shared s) a"
    using live_SomeD(1,2)[OF l] Ptr by (intro n_ptr_nth_pos[of p]) simp_all
  then show ?thesis using Ptr ptr_inv_range[OF inv] by simp
qed

lemma weak_handle:
  assumes inv: "ptr_inv s" and l: "live (weak s) p = Some h"
  shows "h = Null \<or> (\<exists>a. h = Ptr a \<and> a < length (blocks s) \<and> 0 < n_ptr (weak s) a)"
proof (cases h)
  case Dead
  then show ?thesis using live_SomeD(3)[OF l] by simp
next
  case Null
  then show ?thesis by simp
next
  case (Ptr a)
  have pos: "0 < n_ptr (weak s) a"
    using live_SomeD(1,2)[OF l] Ptr by (intro n_ptr_nth_pos[of p]) simp_all
  then show ?thesis using Ptr ptr_inv_range[OF inv] by simp
qed

text \<open>A new handle that stays empty.\<close>

lemma inv_new_null_shared:
  assumes inv: "ptr_inv s" and n: "new_handle (shared s) p Null = Some sh"
  shows "ptr_inv (s\<lparr> shared := sh \<rparr>)"
  using ptr_inv_blocks[OF inv] ptr_inv_zero[OF inv] n_ptr_new_handle(1)[OF n]
  by (intro ptr_invI[where S="n_ptr (shared s)" and W="n_ptr (weak s)"]) simp_all

lemma inv_new_null_weak:
  assumes inv: "ptr_inv s" and n: "new_handle (weak s) p Null = Some wk"
  shows "ptr_inv (s\<lparr> weak := wk \<rparr>)"
  using ptr_inv_blocks[OF inv] ptr_inv_zero[OF inv] n_ptr_new_handle(1)[OF n]
  by (intro ptr_invI[where S="n_ptr (shared s)" and W="n_ptr (weak s)"]) simp_all

text \<open>\<open>make_shared\<close>: a new control block and its first strong handle.\<close>

lemma inv_make_shared:
  assumes inv: "ptr_inv s" and n: "new_handle (shared s) p (Ptr (length (blocks s))) = Some sh"
  shows "ptr_inv (s\<lparr> blocks := blocks s @ [inc_strong control_blk_init], shared := sh \<rparr>)"
proof (rule ptr_invI[where S="\<lambda>a. n_ptr (shared s) a + (if a = length (blocks s) then 1 else 0)"
        and W="n_ptr (weak s)"])
  have z: "n_ptr (shared s) (length (blocks s)) = 0" "n_ptr (weak s) (length (blocks s)) = 0"
    using ptr_inv_zero[OF inv] by simp_all
  show "blocks_ok (blocks (s\<lparr> blocks := blocks s @ [inc_strong control_blk_init], shared := sh \<rparr>))
          (\<lambda>a. n_ptr (shared s) a + (if a = length (blocks s) then 1 else 0)) (n_ptr (weak s))"
    using ptr_inv_blocks[OF inv] blk_ok_first z
    by (auto simp: blocks_ok_def nth_append less_Suc_eq)
next
  fix a
  show "n_ptr (shared (s\<lparr> blocks := blocks s @ [inc_strong control_blk_init], shared := sh \<rparr>)) a
          = n_ptr (shared s) a + (if a = length (blocks s) then 1 else 0)"
    using n_ptr_new_handle(1)[OF n, of a] by auto
  show "n_ptr (weak (s\<lparr> blocks := blocks s @ [inc_strong control_blk_init], shared := sh \<rparr>)) a
          = n_ptr (weak s) a" by simp
  show "length (blocks (s\<lparr> blocks := blocks s @ [inc_strong control_blk_init], shared := sh \<rparr>)) \<le> a
          \<Longrightarrow> n_ptr (shared s) a + (if a = length (blocks s) then 1 else 0) = 0 \<and> n_ptr (weak s) a = 0"
    using ptr_inv_zero[OF inv, of a] by simp
qed

text \<open>A strong handle acquired for a new \<open>shared_ptr\<close> (copy construction, \<open>lock\<close>).\<close>

lemma inv_acquire_new_shared:
  assumes inv: "ptr_inv s"
    and h: "h = Null \<or> (\<exists>a. h = Ptr a \<and> a < length (blocks s) \<and> 0 < n_ptr (shared s) a)"
    and acq: "shared_acquire (blocks s) h = Some bs"
    and n: "new_handle (shared s) p h = Some sh"
    and bound: "length sh + length (weak s) < 2 ^ 32"
  shows "ptr_inv (s\<lparr> blocks := bs, shared := sh \<rparr>)"
proof -
  let ?S = "\<lambda>b. n_ptr (shared s) b + (if h = Ptr b then 1 else 0)"
  have cnt: "\<And>b. n_ptr sh b = ?S b" using n_ptr_new_handle(1)[OF n] by simp
  have h': "h = Null \<or> (\<exists>a. h = Ptr a \<and> a < length (blocks s) \<and> 0 < n_ptr (shared s) a \<and>
              n_ptr (shared s) a + 1 < 2 ^ 32)"
  proof (cases h)
    case (Ptr a)
    have "n_ptr sh a \<le> length sh" by (rule n_ptr_le_length)
    then have "n_ptr (shared s) a + 1 < 2 ^ 32" using cnt[of a] Ptr bound by simp
    then show ?thesis using h Ptr by simp
  qed (use h in simp_all)
  obtain bs' where "shared_acquire (blocks s) h = Some bs'" "length bs' = length (blocks s)"
    "blocks_ok bs' ?S (n_ptr (weak s))"
    using shared_acquire_ok[OF ptr_inv_blocks[OF inv] h'] by blast
  then have bs: "length bs = length (blocks s)" "blocks_ok bs ?S (n_ptr (weak s))"
    using acq by simp_all
  show ?thesis
  proof (rule ptr_invI[where S="?S" and W="n_ptr (weak s)"])
    show "blocks_ok (blocks (s\<lparr> blocks := bs, shared := sh \<rparr>)) ?S (n_ptr (weak s))"
      using bs by simp
  next
    fix a
    show "n_ptr (shared (s\<lparr> blocks := bs, shared := sh \<rparr>)) a = ?S a" using cnt by simp
    show "n_ptr (weak (s\<lparr> blocks := bs, shared := sh \<rparr>)) a = n_ptr (weak s) a" by simp
    show "length (blocks (s\<lparr> blocks := bs, shared := sh \<rparr>)) \<le> a \<Longrightarrow> ?S a = 0 \<and> n_ptr (weak s) a = 0"
      using ptr_inv_zero[OF inv, of a] h bs(1) by auto
  qed
qed

text \<open>A weak handle acquired for a new \<open>weak_ptr\<close>.\<close>

lemma inv_acquire_new_weak:
  assumes inv: "ptr_inv s"
    and h: "h = Null \<or> (\<exists>a. h = Ptr a \<and> a < length (blocks s) \<and>
              (0 < n_ptr (shared s) a \<or> 0 < n_ptr (weak s) a))"
    and acq: "weak_acquire (blocks s) h = Some bs"
    and n: "new_handle (weak s) p h = Some wk"
    and bound: "length (shared s) + length wk < 2 ^ 32"
  shows "ptr_inv (s\<lparr> blocks := bs, weak := wk \<rparr>)"
proof -
  let ?W = "\<lambda>b. n_ptr (weak s) b + (if h = Ptr b then 1 else 0)"
  have cnt: "\<And>b. n_ptr wk b = ?W b" using n_ptr_new_handle(1)[OF n] by simp
  have h': "h = Null \<or> (\<exists>a. h = Ptr a \<and> a < length (blocks s) \<and>
              (0 < n_ptr (shared s) a \<or> 0 < n_ptr (weak s) a) \<and>
              n_ptr (weak s) a + 1 + (if 0 < n_ptr (shared s) a then 1 else 0) < 2 ^ 32)"
  proof (cases h)
    case (Ptr a)
    have "n_ptr wk a \<le> length wk" by (rule n_ptr_le_length)
    moreover have "(if 0 < n_ptr (shared s) a then 1 else 0) \<le> length (shared s)"
      using n_ptr_le_length[of "shared s" a] by simp
    ultimately have "n_ptr (weak s) a + 1 + (if 0 < n_ptr (shared s) a then 1 else 0) < 2 ^ 32"
      using cnt[of a] Ptr bound by simp
    then show ?thesis using h Ptr by simp
  qed (use h in simp_all)
  obtain bs' where "weak_acquire (blocks s) h = Some bs'" "length bs' = length (blocks s)"
    "blocks_ok bs' (n_ptr (shared s)) ?W"
    using weak_acquire_ok[OF ptr_inv_blocks[OF inv] h'] by blast
  then have bs: "length bs = length (blocks s)" "blocks_ok bs (n_ptr (shared s)) ?W"
    using acq by simp_all
  show ?thesis
  proof (rule ptr_invI[where S="n_ptr (shared s)" and W="?W"])
    show "blocks_ok (blocks (s\<lparr> blocks := bs, weak := wk \<rparr>)) (n_ptr (shared s)) ?W"
      using bs by simp
  next
    fix a
    show "n_ptr (shared (s\<lparr> blocks := bs, weak := wk \<rparr>)) a = n_ptr (shared s) a" by simp
    show "n_ptr (weak (s\<lparr> blocks := bs, weak := wk \<rparr>)) a = ?W a" using cnt by simp
    show "length (blocks (s\<lparr> blocks := bs, weak := wk \<rparr>)) \<le> a \<Longrightarrow> n_ptr (shared s) a = 0 \<and> ?W a = 0"
      using ptr_inv_zero[OF inv, of a] h bs(1) by auto
  qed
qed

text \<open>Handle lists whose pointer counts agree.\<close>

lemma n_ptr_move:
  assumes l: "live hs q = Some h" and n: "new_handle hs p h = Some hs'"
  shows "n_ptr (hs'[q := Null]) a = n_ptr hs a"
proof -
  note q = live_SomeD[OF l]
  have pq: "p \<noteq> q" using n q by (auto simp: new_handle_def split: if_splits)
  have q': "q < length hs'" using n_ptr_new_handle(2)[OF n] q(1) by simp
  have "hs' ! q = h" using n q pq by (auto simp: new_handle_def nth_append split: if_splits)
  then show ?thesis
    using n_ptr_update[OF q', of Null a] n_ptr_new_handle(1)[OF n, of a] by simp
qed

lemma length_move:
  assumes "new_handle hs p h = Some hs'"
  shows "length (hs'[q := Null]) \<ge> length hs"
  using n_ptr_new_handle(2)[OF assms] by simp

lemma n_ptr_swap:
  assumes "p < length hs" "q < length hs"
  shows "n_ptr (hs[p := hs ! q, q := hs ! p]) a = n_ptr hs a"
  using assms by (simp add: n_ptr_mset mset_swap)

lemma inv_same_counts:
  assumes inv: "ptr_inv s" and "blocks s' = blocks s"
    and "\<And>a. n_ptr (shared s') a = n_ptr (shared s) a"
    and "\<And>a. n_ptr (weak s') a = n_ptr (weak s) a"
  shows "ptr_inv s'"
  using ptr_inv_blocks[OF inv] ptr_inv_zero[OF inv] assms(2-4)
  by (intro ptr_invI[where S="n_ptr (shared s)" and W="n_ptr (weak s)"]) simp_all

text \<open>\<open>reset\<close> of a strong handle whose slot then holds \<open>v\<close> (null or destroyed).\<close>

lemma inv_reset_shared:
  assumes inv: "ptr_inv s" and l: "live (shared s) p = Some hp"
    and r: "shared_reset (blocks s) hp = Some bs" and v: "v = Null \<or> v = Dead"
  shows "ptr_inv (s\<lparr> blocks := bs, shared := (shared s)[p := v] \<rparr>)"
proof -
  let ?S = "\<lambda>b. n_ptr (shared s) b - (if hp = Ptr b then 1 else 0)"
  note p = live_SomeD[OF l]
  obtain bs' where "shared_reset (blocks s) hp = Some bs'" "length bs' = length (blocks s)"
    "blocks_ok bs' ?S (n_ptr (weak s))"
    using shared_reset_ok[OF ptr_inv_blocks[OF inv] shared_handle[OF inv l]] by blast
  then have bs: "length bs = length (blocks s)" "blocks_ok bs ?S (n_ptr (weak s))"
    using r by simp_all
  have cnt: "\<And>b. n_ptr ((shared s)[p := v]) b = ?S b"
    using n_ptr_update[OF p(1), of v] p(2) v by auto
  show ?thesis
    using bs cnt ptr_inv_zero[OF inv]
    by (intro ptr_invI[where S="?S" and W="n_ptr (weak s)"]) simp_all
qed

lemma inv_reset_weak:
  assumes inv: "ptr_inv s" and l: "live (weak s) p = Some hp"
    and r: "weak_reset (blocks s) hp = Some bs" and v: "v = Null \<or> v = Dead"
  shows "ptr_inv (s\<lparr> blocks := bs, weak := (weak s)[p := v] \<rparr>)"
proof -
  let ?W = "\<lambda>b. n_ptr (weak s) b - (if hp = Ptr b then 1 else 0)"
  note p = live_SomeD[OF l]
  obtain bs' where "weak_reset (blocks s) hp = Some bs'" "length bs' = length (blocks s)"
    "blocks_ok bs' (n_ptr (shared s)) ?W"
    using weak_reset_ok[OF ptr_inv_blocks[OF inv] weak_handle[OF inv l]] by blast
  then have bs: "length bs = length (blocks s)" "blocks_ok bs (n_ptr (shared s)) ?W"
    using r by simp_all
  have cnt: "\<And>b. n_ptr ((weak s)[p := v]) b = ?W b"
    using n_ptr_update[OF p(1), of v] p(2) v by auto
  show ?thesis
    using bs cnt ptr_inv_zero[OF inv]
    by (intro ptr_invI[where S="n_ptr (shared s)" and W="?W"]) simp_all
qed

text \<open>Move assignment: \<open>reset\<close>, take the other handle, null the other.\<close>

lemma n_ptr_move_assign:
  assumes p: "p < length hs" and q: "q < length hs" and pq: "p \<noteq> q"
  shows "n_ptr (hs[p := hs ! q, q := Null]) a = n_ptr (hs[p := Null]) a"
proof -
  have q': "q < length (hs[p := hs ! q])" using q by simp
  have "hs[p := hs ! q] ! q = hs ! q" using pq by simp
  then show ?thesis
    using n_ptr_update[OF q', of Null a] n_ptr_update[OF p, of "hs ! q" a]
          n_ptr_update[OF p, of Null a]
    by simp
qed

lemma inv_move_assign_shared:
  assumes inv: "ptr_inv s" and lp: "live (shared s) p = Some hp" and lq: "live (shared s) q = Some hq"
    and pq: "p \<noteq> q" and r: "shared_reset (blocks s) hp = Some bs"
  shows "ptr_inv (s\<lparr> blocks := bs, shared := (shared s)[p := hq, q := Null] \<rparr>)"
proof -
  have a: "ptr_inv (s\<lparr> blocks := bs, shared := (shared s)[p := Null] \<rparr>)"
    by (rule inv_reset_shared[OF inv lp r]) simp
  have "\<And>a. n_ptr ((shared s)[p := hq, q := Null]) a = n_ptr ((shared s)[p := Null]) a"
    using n_ptr_move_assign[OF live_SomeD(1)[OF lp] live_SomeD(1)[OF lq] pq] live_SomeD(2)[OF lq]
    by simp
  then show ?thesis by (intro inv_same_counts[OF a]) simp_all
qed

lemma inv_move_assign_weak:
  assumes inv: "ptr_inv s" and lp: "live (weak s) p = Some hp" and lq: "live (weak s) q = Some hq"
    and pq: "p \<noteq> q" and r: "weak_reset (blocks s) hp = Some bs"
  shows "ptr_inv (s\<lparr> blocks := bs, weak := (weak s)[p := hq, q := Null] \<rparr>)"
proof -
  have a: "ptr_inv (s\<lparr> blocks := bs, weak := (weak s)[p := Null] \<rparr>)"
    by (rule inv_reset_weak[OF inv lp r]) simp
  have "\<And>a. n_ptr ((weak s)[p := hq, q := Null]) a = n_ptr ((weak s)[p := Null]) a"
    using n_ptr_move_assign[OF live_SomeD(1)[OF lp] live_SomeD(1)[OF lq] pq] live_SomeD(2)[OF lq]
    by simp
  then show ?thesis by (intro inv_same_counts[OF a]) simp_all
qed

lemma new_handle_dead:
  assumes "p < length hs"
  shows "new_handle (hs[p := Dead]) p h = Some (hs[p := h])"
  using assms by (simp add: new_handle_def)

lemma live_other:
  assumes "live hs q = Some h" "p \<noteq> q"
  shows "live (hs[p := v]) q = Some h"
  using assms by (auto simp: live_def split: if_splits)

lemma inv_assign_shared:
  assumes inv: "ptr_inv s" and lp: "live (shared s) p = Some hp" and lq: "live (shared s) q = Some hq"
    and pq: "p \<noteq> q" and r: "shared_reset (blocks s) hp = Some bs1"
    and acq: "shared_acquire bs1 hq = Some bs2"
    and bound: "length (shared s) + length (weak s) < 2 ^ 32"
  shows "ptr_inv (s\<lparr> blocks := bs2, shared := (shared s)[p := hq] \<rparr>)"
proof -
  let ?s1 = "s\<lparr> blocks := bs1, shared := (shared s)[p := Dead] \<rparr>"
  have i1: "ptr_inv ?s1" by (rule inv_reset_shared[OF inv lp r]) simp
  have lq1: "live (shared ?s1) q = Some hq" using live_other[OF lq pq] by simp
  have "ptr_inv (?s1\<lparr> blocks := bs2, shared := (shared s)[p := hq] \<rparr>)"
  proof (rule inv_acquire_new_shared[OF i1 shared_handle[OF i1 lq1]])
    show "shared_acquire (blocks ?s1) hq = Some bs2" using acq by simp
    show "new_handle (shared ?s1) p hq = Some ((shared s)[p := hq])"
      using new_handle_dead[OF live_SomeD(1)[OF lp]] by simp
    show "length ((shared s)[p := hq]) + length (weak ?s1) < 2 ^ 32" using bound by simp
  qed
  then show ?thesis by simp
qed

lemma inv_assign_weak:
  assumes inv: "ptr_inv s" and lp: "live (weak s) p = Some hp" and lq: "live (weak s) q = Some hq"
    and pq: "p \<noteq> q" and r: "weak_reset (blocks s) hp = Some bs1"
    and acq: "weak_acquire bs1 hq = Some bs2"
    and bound: "length (shared s) + length (weak s) < 2 ^ 32"
  shows "ptr_inv (s\<lparr> blocks := bs2, weak := (weak s)[p := hq] \<rparr>)"
proof -
  let ?s1 = "s\<lparr> blocks := bs1, weak := (weak s)[p := Dead] \<rparr>"
  have i1: "ptr_inv ?s1" by (rule inv_reset_weak[OF inv lp r]) simp
  have lq1: "live (weak ?s1) q = Some hq" using live_other[OF lq pq] by simp
  have h: "hq = Null \<or> (\<exists>a. hq = Ptr a \<and> a < length (blocks ?s1) \<and>
              (0 < n_ptr (shared ?s1) a \<or> 0 < n_ptr (weak ?s1) a))"
    using weak_handle[OF i1 lq1] by blast
  have "ptr_inv (?s1\<lparr> blocks := bs2, weak := (weak s)[p := hq] \<rparr>)"
  proof (rule inv_acquire_new_weak[OF i1 h])
    show "weak_acquire (blocks ?s1) hq = Some bs2" using acq by simp
    show "new_handle (weak ?s1) p hq = Some ((weak s)[p := hq])"
      using new_handle_dead[OF live_SomeD(1)[OF lp]] by simp
    show "length (shared ?s1) + length ((weak s)[p := hq]) < 2 ^ 32" using bound by simp
  qed
  then show ?thesis by simp
qed

lemma inv_assign_weak_from_shared:
  assumes inv: "ptr_inv s" and lw: "live (weak s) w = Some hw" and lp: "live (shared s) p = Some h"
    and r: "weak_reset (blocks s) hw = Some bs1"
    and acq: "weak_acquire bs1 h = Some bs2"
    and bound: "length (shared s) + length (weak s) < 2 ^ 32"
  shows "ptr_inv (s\<lparr> blocks := bs2, weak := (weak s)[w := h] \<rparr>)"
proof -
  let ?s1 = "s\<lparr> blocks := bs1, weak := (weak s)[w := Dead] \<rparr>"
  have i1: "ptr_inv ?s1" by (rule inv_reset_weak[OF inv lw r]) simp
  have lp1: "live (shared ?s1) p = Some h" using lp by simp
  have h: "h = Null \<or> (\<exists>a. h = Ptr a \<and> a < length (blocks ?s1) \<and>
              (0 < n_ptr (shared ?s1) a \<or> 0 < n_ptr (weak ?s1) a))"
    using shared_handle[OF i1 lp1] by blast
  have "ptr_inv (?s1\<lparr> blocks := bs2, weak := (weak s)[w := h] \<rparr>)"
  proof (rule inv_acquire_new_weak[OF i1 h])
    show "weak_acquire (blocks ?s1) h = Some bs2" using acq by simp
    show "new_handle (weak ?s1) w h = Some ((weak s)[w := h])"
      using new_handle_dead[OF live_SomeD(1)[OF lw]] by simp
    show "length (shared ?s1) + length ((weak s)[w := h]) < 2 ^ 32" using bound by simp
  qed
  then show ?thesis by simp
qed

lemma inv_lock:
  assumes inv: "ptr_inv s" and lw: "live (weak s) w = Some hw"
    and uc: "use_count (blocks s) hw = Some n" and n: "n \<noteq> 0"
    and acq: "shared_acquire (blocks s) hw = Some bs"
    and nh: "new_handle (shared s) p hw = Some sh"
    and bound: "length sh + length (weak s) < 2 ^ 32"
  shows "ptr_inv (s\<lparr> blocks := bs, shared := sh \<rparr>)"
proof -
  have h: "hw = Null \<or> (\<exists>a. hw = Ptr a \<and> a < length (blocks s) \<and> 0 < n_ptr (shared s) a)"
  proof (cases hw)
    case (Ptr a)
    then have a: "a < length (blocks s)" using weak_handle[OF inv lw] by simp
    have "n = m_strong_count (blocks s ! a)"
      using uc Ptr by (auto simp: use_count_def blk_at_def split: if_splits)
    moreover have "blk_ok (blocks s ! a) (n_ptr (shared s) a) (n_ptr (weak s) a)"
      using ptr_inv_blocks[OF inv] a by (simp add: blocks_ok_def)
    ultimately have "0 < n_ptr (shared s) a" using n by (auto simp: blk_ok_def unat_eq_0')
    then show ?thesis using Ptr a by simp
  qed (use uc n in \<open>simp_all add: use_count_def\<close>)
  show ?thesis by (rule inv_acquire_new_shared[OF inv h acq nh bound])
qed

lemma inv_new_weak_from_shared:
  assumes inv: "ptr_inv s" and lp: "live (shared s) p = Some h"
    and acq: "weak_acquire (blocks s) h = Some bs"
    and nh: "new_handle (weak s) w h = Some wk"
    and bound: "length (shared s) + length wk < 2 ^ 32"
  shows "ptr_inv (s\<lparr> blocks := bs, weak := wk \<rparr>)"
proof -
  have h: "h = Null \<or> (\<exists>a. h = Ptr a \<and> a < length (blocks s) \<and>
              (0 < n_ptr (shared s) a \<or> 0 < n_ptr (weak s) a))"
    using shared_handle[OF inv lp] by blast
  show ?thesis by (rule inv_acquire_new_weak[OF inv h acq nh bound])
qed

lemma inv_new_weak_copy:
  assumes inv: "ptr_inv s" and lp: "live (weak s) v = Some h"
    and acq: "weak_acquire (blocks s) h = Some bs"
    and nh: "new_handle (weak s) w h = Some wk"
    and bound: "length (shared s) + length wk < 2 ^ 32"
  shows "ptr_inv (s\<lparr> blocks := bs, weak := wk \<rparr>)"
proof -
  have h: "h = Null \<or> (\<exists>a. h = Ptr a \<and> a < length (blocks s) \<and>
              (0 < n_ptr (shared s) a \<or> 0 < n_ptr (weak s) a))"
    using weak_handle[OF inv lp] by blast
  show ?thesis by (rule inv_acquire_new_weak[OF inv h acq nh bound])
qed

lemma step_preserves:
  assumes inv: "ptr_inv s" and st: "step x s = Some s'"
    and bound: "length (shared s') + length (weak s') < 2 ^ 32"
  shows "ptr_inv s'"
proof (cases x)
  case (MakeShared p b1 b2)
  then show ?thesis using st inv
    by (auto split: if_splits bind_splits intro: inv_make_shared inv_new_null_shared)
next
  case (SharedDefault p)
  then show ?thesis using st inv by (auto split: bind_splits intro: inv_new_null_shared)
next
  case (SharedCopy p q)
  then obtain h bs sh where "live (shared s) q = Some h" "shared_acquire (blocks s) h = Some bs"
    "new_handle (shared s) p h = Some sh" "s' = s\<lparr> blocks := bs, shared := sh \<rparr>"
    using st by (auto split: bind_splits)
  then show ?thesis
    using inv_acquire_new_shared[OF inv shared_handle[OF inv], of q h bs p sh] bound by simp
next
  case (SharedMove p q)
  then obtain h sh where a: "live (shared s) q = Some h" "new_handle (shared s) p h = Some sh"
    "s' = s\<lparr> shared := sh[q := Null] \<rparr>"
    using st by (auto split: bind_splits)
  show ?thesis using n_ptr_move[OF a(1,2)] a(3) by (intro inv_same_counts[OF inv]) simp_all
next
  case (SharedAssign p q)
  show ?thesis
  proof (cases "p = q")
    case True
    then show ?thesis using SharedAssign st inv by (auto split: bind_splits)
  next
    case False
    then obtain hp hq bs1 bs2 where a: "live (shared s) p = Some hp" "live (shared s) q = Some hq"
      "shared_reset (blocks s) hp = Some bs1" "shared_acquire bs1 hq = Some bs2"
      "s' = s\<lparr> blocks := bs2, shared := (shared s)[p := hq] \<rparr>"
      using SharedAssign st by (auto split: bind_splits)
    have "length (shared s) + length (weak s) < 2 ^ 32" using bound a(5) by simp
    then show ?thesis using inv_assign_shared[OF inv a(1,2) False a(3,4)] a(5) by simp
  qed
next
  case (SharedMoveAssign p q)
  show ?thesis
  proof (cases "p = q")
    case True
    then show ?thesis using SharedMoveAssign st inv by (auto split: bind_splits)
  next
    case False
    then obtain hp hq bs1 where a: "live (shared s) p = Some hp" "live (shared s) q = Some hq"
      "shared_reset (blocks s) hp = Some bs1"
      "s' = s\<lparr> blocks := bs1, shared := (shared s)[p := hq, q := Null] \<rparr>"
      using SharedMoveAssign st by (auto split: bind_splits)
    show ?thesis using inv_move_assign_shared[OF inv a(1,2) False a(3)] a(4) by simp
  qed
next
  case (SharedReset p)
  then obtain hp bs where a: "live (shared s) p = Some hp" "shared_reset (blocks s) hp = Some bs"
    "s' = s\<lparr> blocks := bs, shared := (shared s)[p := Null] \<rparr>"
    using st by (auto split: bind_splits)
  show ?thesis using inv_reset_shared[OF inv a(1,2), of Null] a(3) by simp
next
  case (SharedSwap p q)
  then obtain hp hq where a: "live (shared s) p = Some hp" "live (shared s) q = Some hq"
    "s' = s\<lparr> shared := (shared s)[p := hq, q := hp] \<rparr>"
    using st by (auto split: bind_splits)
  have "\<And>b. n_ptr ((shared s)[p := hq, q := hp]) b = n_ptr (shared s) b"
    using n_ptr_swap[OF live_SomeD(1)[OF a(1)] live_SomeD(1)[OF a(2)]]
      live_SomeD(2)[OF a(1)] live_SomeD(2)[OF a(2)] by simp
  then show ?thesis using a(3) by (intro inv_same_counts[OF inv]) simp_all
next
  case (SharedDtor p)
  then obtain hp bs where a: "live (shared s) p = Some hp" "shared_reset (blocks s) hp = Some bs"
    "s' = s\<lparr> blocks := bs, shared := (shared s)[p := Dead] \<rparr>"
    using st by (auto split: bind_splits)
  show ?thesis using inv_reset_shared[OF inv a(1,2), of Dead] a(3) by simp
next
  case (WeakDefault w)
  then show ?thesis using st inv by (auto split: bind_splits intro: inv_new_null_weak)
next
  case (WeakFromShared w p)
  then obtain h bs wk where a: "live (shared s) p = Some h" "weak_acquire (blocks s) h = Some bs"
    "new_handle (weak s) w h = Some wk" "s' = s\<lparr> blocks := bs, weak := wk \<rparr>"
    using st by (auto split: bind_splits)
  show ?thesis using inv_new_weak_from_shared[OF inv a(1,2,3)] bound a(4) by simp
next
  case (WeakAssignShared w p)
  then obtain hw h bs1 bs2 where a: "live (weak s) w = Some hw" "live (shared s) p = Some h"
    "weak_reset (blocks s) hw = Some bs1" "weak_acquire bs1 h = Some bs2"
    "s' = s\<lparr> blocks := bs2, weak := (weak s)[w := h] \<rparr>"
    using st by (auto split: bind_splits)
  have "length (shared s) + length (weak s) < 2 ^ 32" using bound a(5) by simp
  then show ?thesis using inv_assign_weak_from_shared[OF inv a(1,2,3,4)] a(5) by simp
next
  case (WeakCopy w v)
  then obtain h bs wk where a: "live (weak s) v = Some h" "weak_acquire (blocks s) h = Some bs"
    "new_handle (weak s) w h = Some wk" "s' = s\<lparr> blocks := bs, weak := wk \<rparr>"
    using st by (auto split: bind_splits)
  show ?thesis using inv_new_weak_copy[OF inv a(1,2,3)] bound a(4) by simp
next
  case (WeakMove w v)
  then obtain h wk where a: "live (weak s) v = Some h" "new_handle (weak s) w h = Some wk"
    "s' = s\<lparr> weak := wk[v := Null] \<rparr>"
    using st by (auto split: bind_splits)
  show ?thesis using n_ptr_move[OF a(1,2)] a(3) by (intro inv_same_counts[OF inv]) simp_all
next
  case (WeakAssign w v)
  show ?thesis
  proof (cases "w = v")
    case True
    then show ?thesis using WeakAssign st inv by (auto split: bind_splits)
  next
    case False
    then obtain hp hq bs1 bs2 where a: "live (weak s) w = Some hp" "live (weak s) v = Some hq"
      "weak_reset (blocks s) hp = Some bs1" "weak_acquire bs1 hq = Some bs2"
      "s' = s\<lparr> blocks := bs2, weak := (weak s)[w := hq] \<rparr>"
      using WeakAssign st by (auto split: bind_splits)
    have "length (shared s) + length (weak s) < 2 ^ 32" using bound a(5) by simp
    then show ?thesis using inv_assign_weak[OF inv a(1,2) False a(3,4)] a(5) by simp
  qed
next
  case (WeakMoveAssign w v)
  show ?thesis
  proof (cases "w = v")
    case True
    then show ?thesis using WeakMoveAssign st inv by (auto split: bind_splits)
  next
    case False
    then obtain hp hq bs1 where a: "live (weak s) w = Some hp" "live (weak s) v = Some hq"
      "weak_reset (blocks s) hp = Some bs1"
      "s' = s\<lparr> blocks := bs1, weak := (weak s)[w := hq, v := Null] \<rparr>"
      using WeakMoveAssign st by (auto split: bind_splits)
    show ?thesis using inv_move_assign_weak[OF inv a(1,2) False a(3)] a(4) by simp
  qed
next
  case (WeakReset w)
  then obtain hp bs where a: "live (weak s) w = Some hp" "weak_reset (blocks s) hp = Some bs"
    "s' = s\<lparr> blocks := bs, weak := (weak s)[w := Null] \<rparr>"
    using st by (auto split: bind_splits)
  show ?thesis using inv_reset_weak[OF inv a(1,2), of Null] a(3) by simp
next
  case (WeakSwap w v)
  then obtain hp hq where a: "live (weak s) w = Some hp" "live (weak s) v = Some hq"
    "s' = s\<lparr> weak := (weak s)[w := hq, v := hp] \<rparr>"
    using st by (auto split: bind_splits)
  have "\<And>b. n_ptr ((weak s)[w := hq, v := hp]) b = n_ptr (weak s) b"
    using n_ptr_swap[OF live_SomeD(1)[OF a(1)] live_SomeD(1)[OF a(2)]]
      live_SomeD(2)[OF a(1)] live_SomeD(2)[OF a(2)] by simp
  then show ?thesis using a(3) by (intro inv_same_counts[OF inv]) simp_all
next
  case (WeakDtor w)
  then obtain hp bs where a: "live (weak s) w = Some hp" "weak_reset (blocks s) hp = Some bs"
    "s' = s\<lparr> blocks := bs, weak := (weak s)[w := Dead] \<rparr>"
    using st by (auto split: bind_splits)
  show ?thesis using inv_reset_weak[OF inv a(1,2), of Dead] a(3) by simp
next
  case (WeakLock p w)
  then obtain hw n where a: "live (weak s) w = Some hw" "use_count (blocks s) hw = Some n"
    using st by (auto split: bind_splits)
  show ?thesis
  proof (cases "n = 0")
    case True
    then show ?thesis using WeakLock st inv a
      by (auto split: bind_splits intro: inv_new_null_shared)
  next
    case False
    then obtain bs sh where b: "shared_acquire (blocks s) hw = Some bs"
      "new_handle (shared s) p hw = Some sh" "s' = s\<lparr> blocks := bs, shared := sh \<rparr>"
      using WeakLock st a by (auto split: bind_splits)
    show ?thesis using inv_lock[OF inv a False b(1,2)] bound b(3) by simp
  qed
qed

lemma blocks_mono_refl: "blocks_mono bs bs"
  by (simp add: blocks_mono_def list_all_iff)

lemma blocks_mono_append: "blocks_mono bs (bs @ cs)"
  by (simp add: blocks_mono_def list_all_iff nth_append)

lemma blocks_mono_trans:
  assumes "blocks_mono a b" "blocks_mono b c"
  shows "blocks_mono a c"
proof -
  have l: "length a \<le> length b" "length b \<le> length c"
    using assms by (simp_all add: blocks_mono_def)
  have "dtor_calls (a ! i) \<le> dtor_calls (c ! i) \<and> dealloc_calls (a ! i) \<le> dealloc_calls (c ! i)"
    if "i < length a" for i
  proof -
    have "i < length b" using that l by simp
    then have "dtor_calls (b ! i) \<le> dtor_calls (c ! i) \<and> dealloc_calls (b ! i) \<le> dealloc_calls (c ! i)"
      using assms(2) by (simp add: blocks_mono_def list_all_iff)
    moreover have "dtor_calls (a ! i) \<le> dtor_calls (b ! i) \<and> dealloc_calls (a ! i) \<le> dealloc_calls (b ! i)"
      using assms(1) that by (simp add: blocks_mono_def list_all_iff)
    ultimately show ?thesis by simp
  qed
  then show ?thesis using l by (simp add: blocks_mono_def list_all_iff)
qed

lemma blocks_mono_update:
  assumes "a < length bs" "dtor_calls (bs ! a) \<le> dtor_calls cb"
    "dealloc_calls (bs ! a) \<le> dealloc_calls cb"
  shows "blocks_mono bs (bs[a := cb])"
  using assms by (auto simp: blocks_mono_def list_all_iff nth_list_update)

lemma shared_acquire_mono: "shared_acquire bs h = Some bs' \<Longrightarrow> blocks_mono bs bs'"
  by (auto simp: shared_acquire_def blk_at_def inc_strong_def Let_def blocks_mono_refl
        intro!: blocks_mono_update split: handle.splits if_splits)

lemma weak_acquire_mono: "weak_acquire bs h = Some bs' \<Longrightarrow> blocks_mono bs bs'"
  by (auto simp: weak_acquire_def blk_at_def inc_weak_def blocks_mono_refl
        intro!: blocks_mono_update split: handle.splits if_splits)

lemma shared_reset_mono: "shared_reset bs h = Some bs' \<Longrightarrow> blocks_mono bs bs'"
  by (auto simp: shared_reset_def blk_at_def dec_strong_def dec_weak_def deinit_def
        deallocate_blk_def Let_def blocks_mono_refl
        intro!: blocks_mono_update split: handle.splits if_splits)

lemma weak_reset_mono: "weak_reset bs h = Some bs' \<Longrightarrow> blocks_mono bs bs'"
  by (auto simp: weak_reset_def blk_at_def dec_weak_def deallocate_blk_def Let_def
        blocks_mono_refl
        intro!: blocks_mono_update split: handle.splits if_splits)

lemma shared_assign_mono:
  "shared_reset bs h = Some b1 \<Longrightarrow> shared_acquire b1 h' = Some b2 \<Longrightarrow> blocks_mono bs b2"
  by (blast intro: blocks_mono_trans shared_reset_mono shared_acquire_mono)

lemma weak_assign_mono:
  "weak_reset bs h = Some b1 \<Longrightarrow> weak_acquire b1 h' = Some b2 \<Longrightarrow> blocks_mono bs b2"
  by (blast intro: blocks_mono_trans weak_reset_mono weak_acquire_mono)

lemmas prim_mono = shared_acquire_mono weak_acquire_mono shared_reset_mono weak_reset_mono
  blocks_mono_refl blocks_mono_append shared_assign_mono weak_assign_mono

lemma step_mono:
  assumes "step x s = Some s'"
  shows "blocks_mono (blocks s) (blocks s')"
  using assms
  by (cases x)
     (auto split: bind_splits if_splits intro: prim_mono)

lemma new_handle_length: "new_handle hs p h = Some hs' \<Longrightarrow> length hs \<le> length hs'"
  by (auto simp: new_handle_def split: if_splits)

lemma step_lengths:
  assumes "step x s = Some s'"
  shows "length (shared s) \<le> length (shared s') \<and> length (weak s) \<le> length (weak s')"
  using assms
  by (cases x) (auto split: bind_splits if_splits dest: new_handle_length)

lemma run_lengths:
  "run xs s = Some s' \<Longrightarrow>
     length (shared s) \<le> length (shared s') \<and> length (weak s) \<le> length (weak s')"
proof (induction xs arbitrary: s)
  case Nil
  then show ?case by simp
next
  case (Cons x xs)
  then obtain s1 where a: "step x s = Some s1" "run xs s1 = Some s'"
    by (auto split: option.splits)
  show ?case using step_lengths[OF a(1)] Cons.IH[OF a(2)] by simp
qed

lemma run_preserves:
  assumes "ptr_inv s" "run xs s = Some s'" "length (shared s') + length (weak s') < 2 ^ 32"
  shows "ptr_inv s'"
  using assms
proof (induction xs arbitrary: s)
  case Nil
  then show ?case by simp
next
  case (Cons x xs)
  then obtain s1 where a: "step x s = Some s1" "run xs s1 = Some s'"
    by (auto split: option.splits)
  have "length (shared s1) + length (weak s1) < 2 ^ 32"
    using run_lengths[OF a(2)] Cons.prems(3) by simp
  then have "ptr_inv s1" by (rule step_preserves[OF Cons.prems(1) a(1)])
  then show ?case using Cons.IH a(2) Cons.prems(3) by simp
qed

lemma run_append:
  "run (xs @ ys) s = (case run xs s of None \<Rightarrow> None | Some s' \<Rightarrow> run ys s')"
  by (induction xs arbitrary: s) (auto split: option.splits)

lemma run_split:
  assumes "run xs s = Some s'" "k < length xs"
  shows "\<exists>sk sk'. run (take k xs) s = Some sk \<and> step (xs ! k) sk = Some sk' \<and>
                   run (drop (Suc k) xs) sk' = Some s'"
proof -
  have "xs = take k xs @ (xs ! k # drop (Suc k) xs)"
    using assms(2) by (simp add: id_take_nth_drop)
  then have "run (take k xs @ (xs ! k # drop (Suc k) xs)) s = Some s'" using assms(1) by simp
  then show ?thesis by (auto simp: run_append split: option.splits)
qed

lemma ptr_inv_init: "ptr_inv ptr_init"
  by (simp add: ptr_inv_def ptr_init_def blocks_ok_def n_ptr_def)

lemma ptr_inv_counts_hold:
  assumes "ptr_inv s"
  shows "counts_hold s"
proof -
  have "blk_ok cb ns nw \<Longrightarrow>
          (m_strong_count cb = 0 \<or> m_weak_count cb \<noteq> 0) \<and>
          dtor_calls cb = (if m_strong_count cb = 0 then 1 else 0) \<and>
          dealloc_calls cb = (if m_weak_count cb = 0 then 1 else 0)" for cb ns nw
    by (auto simp: blk_ok_def unat_eq_0')
  then show ?thesis
    using ptr_inv_blocks[OF assms]
    by (auto simp: counts_hold_def blocks_ok_def list_all_length)
qed

subsection \<open>Claim C7: the counts of a control block\<close>

lemma of_nat_u32_nonzero:
  assumes "0 < n" "n < 2 ^ 32"
  shows "(of_nat n :: u32) \<noteq> 0"
proof -
  have "unat (of_nat n :: u32) = n" using assms(2) by (simp add: unat_of_nat)
  with assms(1) show ?thesis by (auto simp: unat_eq_0)
qed

lemma step_copy:
  assumes "Suc n < 2 ^ 32"
  shows "step (SharedCopy (Suc n) 0) (ptr_copied n) = Some (ptr_copied (Suc n))"
proof -
  have nz: "(of_nat (Suc n) :: u32) \<noteq> 0" using assms by (intro of_nat_u32_nonzero) simp_all
  have nz': "(1 + of_nat n :: u32) \<noteq> 0" using nz by simp
  have rep: "replicate n (Ptr 0) @ [Ptr 0] = replicate (Suc n) (Ptr 0)"
    by (simp add: replicate_append_same)
  show ?thesis
    using nz' rep
    by (simp add: ptr_copied_def live_def shared_acquire_def blk_at_def inc_strong_def
          new_handle_def Let_def add.commute)
qed

lemma run_copies:
  "k + n < 2 ^ 32 \<Longrightarrow>
     run (map (\<lambda>i. SharedCopy (Suc i) 0) [k..<k + n]) (ptr_copied k) = Some (ptr_copied (k + n))"
proof (induction n)
  case 0
  then show ?case by simp
next
  case (Suc n)
  have "[k..<k + Suc n] = [k..<k + n] @ [k + n]" by simp
  then have "run (map (\<lambda>i. SharedCopy (Suc i) 0) [k..<k + Suc n]) (ptr_copied k)
      = (case run (map (\<lambda>i. SharedCopy (Suc i) 0) [k..<k + n]) (ptr_copied k) of
           None \<Rightarrow> None | Some s \<Rightarrow> run [SharedCopy (Suc (k + n)) 0] s)"
    by (simp only: map_append run_append list.map)
  also have "\<dots> = run [SharedCopy (Suc (k + n)) 0] (ptr_copied (k + n))"
    using Suc by simp
  also have "\<dots> = Some (ptr_copied (Suc (k + n)))"
    using Suc.prems step_copy[of "k + n"] by simp
  finally show ?case by simp
qed

lemma run_make_shared: "run [MakeShared 0 True True] ptr_init = Some (ptr_copied 0)"
  by (simp add: ptr_init_def ptr_copied_def new_handle_def inc_strong_def control_blk_init_def
        Let_def)

lemma run_ptr_copies:
  assumes "n < 2 ^ 32"
  shows "run (ptr_copies n) ptr_init = Some (ptr_copied n)"
proof -
  have "run (ptr_copies n) ptr_init
      = (case run [MakeShared 0 True True] ptr_init of
           None \<Rightarrow> None | Some s \<Rightarrow> run (map (\<lambda>i. SharedCopy (Suc i) 0) [0..<n]) s)"
    unfolding ptr_copies_def by (simp only: run_append[symmetric] append.simps)
  also have "\<dots> = run (map (\<lambda>i. SharedCopy (Suc i) 0) [0..<0 + n]) (ptr_copied 0)"
    by (simp only: run_make_shared option.case add_0)
  also have "\<dots> = Some (ptr_copied (0 + n))" using assms by (intro run_copies) simp
  finally show ?thesis by simp
qed

text \<open>
  The bound on the number of handles in C7 is needed. \<open>inc_strong\<close> is a
  \<open>fetch_add\<close> on a 32-bit counter with no check: after \<open>make_shared\<close> and 4294967295
  copies of the handle, all \<open>2^32\<close> strong handles exist and point at the block, the
  payload has not been destroyed, and the strong count has wrapped to zero, which C7
  allows only once the destructor has run.
\<close>

theorem C7_strong_count_wraps:
  "run (ptr_copies 4294967295) ptr_init = Some (ptr_copied 4294967295)
   \<and> length (shared (ptr_copied 4294967295)) = 4294967296
   \<and> list_all (\<lambda>h. h = Ptr 0) (shared (ptr_copied 4294967295))
   \<and> blocks (ptr_copied 4294967295) =
       [\<lparr> m_data = True, m_strong_count = 0, m_weak_count = 1, dtor_calls = 0,
          dealloc_calls = 0 \<rparr>]
   \<and> \<not> counts_hold (ptr_copied 4294967295)"
proof -
  have r: "run (ptr_copies 4294967295) ptr_init = Some (ptr_copied 4294967295)"
    by (rule run_ptr_copies) simp
  have z: "(of_nat (Suc 4294967295) :: u32) = 0" by simp
  have b: "blocks (ptr_copied 4294967295) =
       [\<lparr> m_data = True, m_strong_count = 0, m_weak_count = 1, dtor_calls = 0,
          dealloc_calls = 0 \<rparr>]"
    unfolding ptr_copied_def using z by simp
  have l: "length (shared (ptr_copied 4294967295)) = 4294967296"
    by (simp add: ptr_copied_def)
  have a: "list_all (\<lambda>h. h = Ptr 0) (shared (ptr_copied 4294967295))"
    by (simp add: ptr_copied_def list_all_iff)
  have c: "\<not> counts_hold (ptr_copied 4294967295)"
    by (simp add: counts_hold_def b)
  from r l a b c show ?thesis by blast
qed

text \<open>
  C7, with the bound that it needs. Throughout every run of shared and weak pointer
  operations from the empty state (construction by \<open>make_shared\<close>, copy, move,
  assignment, reset, swap, \<open>lock\<close>, destruction) that creates fewer than \<open>2^32\<close> handle
  objects, before and after every step each control block has a weak count of at least
  one while its strong count is at least one, its payload's destructor has run exactly
  once if the strong count is zero and never otherwise, and the block has been
  deallocated exactly once if the weak count is zero and never otherwise; the two ghost
  counters never decrease, so the destructor runs in the step that brings the strong
  count to zero and the deallocation in the step that brings the weak count to zero.
\<close>

theorem C7_counts_throughout:
  assumes r: "run xs ptr_init = Some s"
    and b: "length (shared s) + length (weak s) < 2 ^ 32"
  shows "counts_hold s \<and>
         (\<forall>k < length xs. \<exists>sk sk'.
            run (take k xs) ptr_init = Some sk \<and> step (xs ! k) sk = Some sk' \<and>
            counts_hold sk \<and> counts_hold sk' \<and> blocks_mono (blocks sk) (blocks sk'))"
proof (intro conjI allI impI)
  show "counts_hold s" using run_preserves[OF ptr_inv_init r b] by (rule ptr_inv_counts_hold)
next
  fix k assume k: "k < length xs"
  obtain sk sk' where a: "run (take k xs) ptr_init = Some sk" "step (xs ! k) sk = Some sk'"
    "run (drop (Suc k) xs) sk' = Some s"
    using run_split[OF r k] by blast
  have b': "length (shared sk') + length (weak sk') < 2 ^ 32"
    using run_lengths[OF a(3)] b by simp
  have bk: "length (shared sk) + length (weak sk) < 2 ^ 32"
    using step_lengths[OF a(2)] b' by simp
  have ik: "ptr_inv sk" by (rule run_preserves[OF ptr_inv_init a(1) bk])
  have ik': "ptr_inv sk'" by (rule step_preserves[OF ik a(2) b'])
  show "\<exists>sk sk'. run (take k xs) ptr_init = Some sk \<and> step (xs ! k) sk = Some sk' \<and>
            counts_hold sk \<and> counts_hold sk' \<and> blocks_mono (blocks sk) (blocks sk')"
    using a(1,2) ptr_inv_counts_hold[OF ik] ptr_inv_counts_hold[OF ik'] step_mono[OF a(2)]
    by blast
qed

lemma run_ptr_demo: "run ptr_demo ptr_init = Some ptr_demo_final"
  by (simp add: ptr_demo_def ptr_init_def ptr_demo_final_def new_handle_def live_def
        shared_acquire_def weak_acquire_def shared_reset_def weak_reset_def use_count_def
        blk_at_def inc_strong_def inc_weak_def dec_strong_def dec_weak_def deinit_def
        deallocate_blk_def control_blk_init_def Let_def)

theorem C7_counts_throughout_witness:
  "run ptr_demo ptr_init = Some ptr_demo_final \<and>
   length (shared ptr_demo_final) + length (weak ptr_demo_final) < 2 ^ 32 \<and>
   counts_hold ptr_demo_final \<and>
   (\<exists>sk sk'. run (take 3 ptr_demo) ptr_init = Some sk \<and> step (ptr_demo ! 3) sk = Some sk' \<and>
      counts_hold sk \<and> counts_hold sk' \<and> blocks_mono (blocks sk) (blocks sk'))"
proof -
  have b: "length (shared ptr_demo_final) + length (weak ptr_demo_final) < 2 ^ 32"
    by (simp add: ptr_demo_final_def)
  have k: "3 < length ptr_demo" by (simp add: ptr_demo_def)
  show ?thesis
    using C7_counts_throughout[OF run_ptr_demo b] run_ptr_demo b k by blast
qed

section \<open>Hash map: proofs\<close>

subsection \<open>Evaluation of the operations on concrete maps\<close>

lemma expand_loop_numeral:
  "expand_loop (numeral n) i v a =
     (case vec_push_back v vec_new a of
        (False, v', a') \<Rightarrow> (i, v', a')
      | (True, v', a') \<Rightarrow> expand_loop (pred_numeral n) (i + 1) v' a')"
  by (simp add: numeral_eq_Suc)

lemma Suc_Suc_0: "Suc (Suc 0) = 2"
  by simp

lemma transfer_loop_done:
  "is_transfer_complete m \<Longrightarrow> transfer_loop h m = Some (True, m)"
  by (subst transfer_loop.simps) simp

lemma transfer_loop_step:
  "\<not> is_transfer_complete m \<Longrightarrow>
     transfer_loop h m =
       (if fst (perform_partial_transfer h m)
        then transfer_loop h (snd (perform_partial_transfer h m))
        else Some (False, snd (perform_partial_transfer h m)))"
  by (subst transfer_loop.simps) simp

lemma partial_transfer_loop_end:
  "\<not> (cur < main_buckets \<and> cur < vec_size (m_buckets main)) \<Longrightarrow>
     partial_transfer_loop h n main_buckets cur main sec a = (True, cur, main, sec, a)"
  by (subst partial_transfer_loop.simps) auto

lemma partial_transfer_loop_skip:
  "cur < main_buckets \<Longrightarrow> cur < vec_size (m_buckets main) \<Longrightarrow>
   vec_is_empty (bucket_at main cur) \<Longrightarrow>
     partial_transfer_loop h n main_buckets cur main sec a =
       partial_transfer_loop h n main_buckets (cur + 1) main sec a"
  by (subst partial_transfer_loop.simps) simp

lemma partial_transfer_loop_budget:
  "cur < main_buckets \<Longrightarrow> cur < vec_size (m_buckets main) \<Longrightarrow>
   \<not> vec_is_empty (bucket_at main cur) \<Longrightarrow>
     partial_transfer_loop h 0 main_buckets cur main sec a = (True, cur, main, sec, a)"
  by (subst partial_transfer_loop.simps) simp

lemma partial_transfer_loop_move:
  "cur < main_buckets \<Longrightarrow> cur < vec_size (m_buckets main) \<Longrightarrow>
   \<not> vec_is_empty (bucket_at main cur) \<Longrightarrow> n \<noteq> 0 \<Longrightarrow>
     partial_transfer_loop h n main_buckets cur main sec a =
       (let bucket = bucket_at main cur; e = last (vec_buf bucket)
        in case table_get_or_create_entry h sec (key_val e) a of
             (res, sec1, a1) \<Rightarrow>
               (case res_entry res of
                  None \<Rightarrow> (False, cur, main, sec1, a1)
                | Some p \<Rightarrow>
                    (let sec2 = (if res_created res then set_entry sec1 p e else sec1);
                         main1 = set_bucket main cur (vec_pop_back bucket);
                         main2 = main1\<lparr> m_total_entries := size_t_dec (m_total_entries main1) \<rparr>
                     in partial_transfer_loop h (n - 1) main_buckets cur main2 sec2 a1)))"
  by (subst partial_transfer_loop.simps) (simp add: Let_def)

declare partial_transfer_loop.simps [simp del]

lemmas map_eval =
  allocate_def vec_new_def vec_size_def vec_is_empty_def vec_reserve_def vec_push_back_def
  vec_pop_back_def vec_remove_fast_def vec_clear_def fnv1a_def hash_u32_def
  power_of_two_primes_def get_prime_power_of_2_def construct_def bucket_get_def
  bucket_remove_def bucket_get_entry_def bucket_get_or_create_entry_def size_t_max_def
  size_t_dec_def size_t_inc_def expand_def table_init_def get_next_power_of_2_def
  get_bucket_index_def bucket_at_def set_bucket_def table_get_def table_get_entry_def
  entry_at_def set_entry_def table_get_or_create_entry_def table_del_def
  table_delete_all_entries_def compute_state_def unordered_map_init_def should_resize_def
  begin_resize_def perform_partial_transfer_def is_transfer_complete_def end_resize_def
  resize_check_def transfer_step_def contains_def get_def put_def del_def get_num_buckets_def
  lookup_def Let_def expand_loop_numeral Suc_Suc_0 upt_conv_Cons
  transfer_loop_done transfer_loop_step partial_transfer_loop_end partial_transfer_loop_skip
  partial_transfer_loop_budget partial_transfer_loop_move


text \<open>
  Claim C6 does not hold of every \<open>reserve\<close>. \<open>reserve(0)\<close> returns false at once: the
  transfer in flight is not completed, nothing is allocated and the map stays in the
  \<open>TRANSFER\<close> state. And when an allocation fails while \<open>reserve\<close> completes the
  transfer in flight, \<open>reserve\<close> returns false and leaves the map in the \<open>TRANSFER\<close>
  state, not in the \<open>ERROR\<close> state.
\<close>

theorem C6_reserve_returns_false_without_error:
  "m_state map_in_transfer = TRANSFER
   \<and> reserve hash_u32 map_in_transfer 0 = Some (False, map_in_transfer)
   \<and> m_state map_in_transfer_failing = TRANSFER
   \<and> (\<exists>m'. reserve hash_u32 map_in_transfer_failing 24 = Some (False, m')
          \<and> m_state m' = TRANSFER \<and> get_num_buckets m' = 37)"
  by (simp add: map_in_transfer_def map_in_transfer_failing_def reserve_def
        map_eval)

subsection \<open>The error state\<close>

lemma error_step:
  assumes "m_state m = ERROR"
  shows "\<exists>l. map_step h op m = Some (failure_result op, m\<lparr> m_locked := l \<rparr>)"
proof (cases op)
  case LockTableSize
  then show ?thesis by (auto simp: map_step_def lock_table_size_def)
next
  case UnlockTableSize
  then show ?thesis by (auto simp: map_step_def unlock_table_size_def)
qed (use assms in \<open>auto simp: map_step_def get_def put_def del_def contains_def reserve_def
       finalize_def delete_all_keys_def intro: exI[of _ "m_locked m"]\<close>)

lemma error_run:
  "m_state m = ERROR \<Longrightarrow>
     \<exists>l. map_run h ops m = Some (map failure_result ops, m\<lparr> m_locked := l \<rparr>)"
proof (induction ops arbitrary: m)
  case Nil
  then show ?case by (auto intro: exI[of _ "m_locked m"])
next
  case (Cons op ops)
  from error_step[OF Cons.prems] obtain l where
    s: "map_step h op m = Some (failure_result op, m\<lparr> m_locked := l \<rparr>)" by blast
  have "m_state (m\<lparr> m_locked := l \<rparr>) = ERROR" using Cons.prems by simp
  from Cons.IH[OF this] obtain l' where
    "map_run h ops (m\<lparr> m_locked := l \<rparr>) = Some (map failure_result ops, m\<lparr> m_locked := l' \<rparr>)"
    by auto
  with s show ?case by auto
qed

text \<open>
  Claim C8. Once the map is in the \<open>ERROR\<close> state, every run of operations returns
  (\<open>map_run\<close> gives \<open>Some\<close>), every operation of the run gives its failure value
  (\<open>get\<close> null, \<open>contains\<close>, \<open>put\<close>, \<open>del\<close>, \<open>reserve\<close> and \<open>finalize\<close> false), the map is
  still in the \<open>ERROR\<close> state afterwards and nothing of it has changed except the flag
  \<open>m_locked\<close>, which \<open>lock_table_size\<close> and \<open>unlock_table_size\<close> set in every state.
\<close>

theorem C8_error_state_latches:
  assumes "m_state m = ERROR"
  shows "\<exists>m'. map_run h ops m = Some (map failure_result ops, m')
            \<and> m_state m' = ERROR
            \<and> m' = m\<lparr> m_locked := m_locked m' \<rparr>
            \<and> get h m' k = (None, m') \<and> contains h m' k = False
            \<and> put h m' k v = (False, m') \<and> del h m' k = (False, m')
            \<and> reserve h m' n = Some (False, m')"
proof -
  from error_run[OF assms] obtain l where
    r: "map_run h ops m = Some (map failure_result ops, m\<lparr> m_locked := l \<rparr>)" by blast
  show ?thesis
    using r assms
    by (auto simp: get_def put_def del_def contains_def reserve_def)
qed

lemma map_failed_state: "m_state map_failed = ERROR"
  by (simp add: map_failed_def unordered_map_init_def allocate_def compute_state_def)

theorem C8_error_state_latches_witness:
  "m_state map_failed = ERROR \<and>
   (\<exists>m'. map_run hash_u32 [Put 1 2, Get 1, LockTableSize, Reserve 24, Del 1, Contains 1] map_failed
            = Some ([Flag False, Pointer None, Void, Flag False, Flag False, Flag False], m')
        \<and> m_state m' = ERROR
        \<and> m' = map_failed\<lparr> m_locked := m_locked m' \<rparr>
        \<and> get hash_u32 m' 1 = (None, m') \<and> contains hash_u32 m' 1 = False
        \<and> put hash_u32 m' 1 2 = (False, m') \<and> del hash_u32 m' 1 = (False, m')
        \<and> reserve hash_u32 m' 24 = Some (False, m'))"
  using C8_error_state_latches[OF map_failed_state,
      of hash_u32 "[Put 1 2, Get 1, LockTableSize, Reserve 24, Del 1, Contains 1]" 1 2 24]
  by (simp add: map_failed_state)

subsection \<open>Searching a bucket\<close>




lemma find_entry_distinct:
  "distinct (map key_val es) \<Longrightarrow> i < length es \<Longrightarrow> find_entry (key_val (es ! i)) es = Some i"
proof (induction es arbitrary: i)
  case Nil
  then show ?case by simp
next
  case (Cons e es)
  show ?case
  proof (cases i)
    case 0
    then show ?thesis by simp
  next
    case (Suc j)
    with Cons.prems have "key_val (es ! j) \<in> key_val ` set es" by auto
    with Cons.prems have "key_val e \<noteq> key_val (es ! j)" by auto
    with Cons Suc show ?thesis by auto
  qed
qed






subsection \<open>Tables as rows\<close>




lemma rows_total_update [simp]: "rows (t\<lparr> m_total_entries := x \<rparr>) = rows t"
  by (simp add: rows_def)

lemma table_wf_total_update [simp]: "table_wf (t\<lparr> m_total_entries := x \<rparr>) = table_wf t"
  by (simp add: table_wf_def)

lemma get_bucket_index_total_update [simp]:
  "get_bucket_index h (t\<lparr> m_total_entries := x \<rparr>) k = get_bucket_index h t k"
  by (simp add: get_bucket_index_def)

lemma buckets_total_total_update [simp]:
  "buckets_total (t\<lparr> m_total_entries := x \<rparr>) = buckets_total t"
  by (simp add: buckets_total_def)

lemma rows_set_bucket: "rows (set_bucket t i b) = (rows t)[i := vec_buf b]"
  by (simp add: rows_def set_bucket_def map_update)

lemma set_bucket_fields [simp]:
  "m_num_buckets (set_bucket t i b) = m_num_buckets t"
  "m_total_entries (set_bucket t i b) = m_total_entries t"
  "m_power_of_2_size (set_bucket t i b) = m_power_of_2_size t"
  by (simp_all add: set_bucket_def)

lemma table_wf_set_bucket [simp]: "table_wf (set_bucket t i b) = table_wf t"
  by (simp add: table_wf_def rows_set_bucket)






lemma set_entry_fields [simp]:
  "m_num_buckets (set_entry t p e) = m_num_buckets t"
  "m_total_entries (set_entry t p e) = m_total_entries t"
  "m_power_of_2_size (set_entry t p e) = m_power_of_2_size t"
  by (simp_all add: set_entry_def Let_def)

lemma table_wf_set_entry [simp]: "table_wf (set_entry t p e) = table_wf t"
  by (simp add: set_entry_def Let_def)



subsection \<open>The operations of a table on its rows\<close>

lemma vec_reserve_cases:
  assumes "vec_reserve v n a = (ok, v', a')"
  shows "vec_buf v' = vec_buf v" and "\<not> ok \<Longrightarrow> v' = v" and "a = [] \<Longrightarrow> ok \<and> a' = []"
  using assms
  by (auto simp: vec_reserve_def allocate_def split: if_splits list.splits bool.splits)

lemma vec_push_back_cases:
  assumes "vec_push_back v x a = (ok, v', a')"
  shows "ok \<Longrightarrow> vec_buf v' = vec_buf v @ [x]" and "\<not> ok \<Longrightarrow> v' = v"
    and "a = [] \<Longrightarrow> ok \<and> a' = []"
proof -
  obtain ok1 v1 a1 where
    r: "vec_reserve v (if vec_capacity v = 0 then 1 else 2 * vec_capacity v) a = (ok1, v1, a1)"
    by (cases "vec_reserve v (if vec_capacity v = 0 then 1 else 2 * vec_capacity v) a") auto
  note rc = vec_reserve_cases[OF r]
  show "ok \<Longrightarrow> vec_buf v' = vec_buf v @ [x]"
    using assms r rc(1) by (auto simp: vec_push_back_def split: if_splits bool.splits)
  show "\<not> ok \<Longrightarrow> v' = v"
    using assms r rc(2) by (auto simp: vec_push_back_def split: if_splits bool.splits)
  show "a = [] \<Longrightarrow> ok \<and> a' = []"
    using assms r rc(3) by (auto simp: vec_push_back_def split: if_splits bool.splits)
qed

lemma bucket_get_or_create_entry_cases:
  assumes "bucket_get_or_create_entry b k a = (cnt, entry, b', a')"
  shows "find_entry k (vec_buf b) = Some i \<Longrightarrow> cnt = 0 \<and> entry = Some i \<and> b' = b \<and> a' = a"
    and "find_entry k (vec_buf b) = None \<Longrightarrow>
           (cnt = 1 \<and> entry = Some (length (vec_buf b)) \<and> vec_buf b' = vec_buf b @ [Entry k None])
           \<or> (cnt = - 1 \<and> entry = None \<and> b' = b)"
    and "a = [] \<Longrightarrow> entry \<noteq> None \<and> a' = []"
proof -
  obtain ok v1 a1 where p: "vec_push_back b (Entry k None) a = (ok, v1, a1)"
    by (cases "vec_push_back b (Entry k None) a") auto
  note pc = vec_push_back_cases[OF p]
  have found: "cnt = 0 \<and> entry = Some i \<and> b' = b \<and> a' = a"
    if "find_entry k (vec_buf b) = Some i" for i
    using assms that by (simp add: bucket_get_or_create_entry_def)
  then show "find_entry k (vec_buf b) = Some i \<Longrightarrow> cnt = 0 \<and> entry = Some i \<and> b' = b \<and> a' = a" .
  show "find_entry k (vec_buf b) = None \<Longrightarrow>
           (cnt = 1 \<and> entry = Some (length (vec_buf b)) \<and> vec_buf b' = vec_buf b @ [Entry k None])
           \<or> (cnt = - 1 \<and> entry = None \<and> b' = b)"
    using assms p pc(1,2)
    by (cases ok) (auto simp: bucket_get_or_create_entry_def vec_size_def)
  show "a = [] \<Longrightarrow> entry \<noteq> None \<and> a' = []"
  proof (cases "find_entry k (vec_buf b)")
    case None
    assume "a = []"
    with pc(3) have "ok \<and> a1 = []" by simp
    with assms p None show ?thesis by (auto simp: bucket_get_or_create_entry_def)
  next
    case (Some i)
    assume "a = []"
    with found[OF Some] show ?thesis by simp
  qed
qed


lemma table_get_or_create_entry_succeeds:
  assumes "table_get_or_create_entry h t k [] = (res, t1, a1)" "0 < m_num_buckets t"
  shows "res_entry res \<noteq> None \<and> a1 = []"
proof -
  define j where "j = get_bucket_index h t k"
  obtain cnt entry b' a' where
    b: "bucket_get_or_create_entry (bucket_at t j) k [] = (cnt, entry, b', a')"
    by (cases "bucket_get_or_create_entry (bucket_at t j) k []") auto
  from bucket_get_or_create_entry_cases(3)[OF b] have "entry \<noteq> None \<and> a' = []" by simp
  with assms b show ?thesis
    by (cases "0 < cnt") (auto simp: table_get_or_create_entry_def Let_def j_def[symmetric])
qed

subsection \<open>The invariant of a transfer\<close>


lemma rows_distinct_iff:
  "rows_distinct t \<longleftrightarrow> (\<forall>i < length (rows t). distinct (map key_val (rows t ! i)))"
  by (simp add: rows_distinct_def list_all_iff all_set_conv_all_nth)



lemma rows_distinctD:
  "rows_distinct t \<Longrightarrow> i < length (rows t) \<Longrightarrow> distinct (map key_val (rows t ! i))"
  by (simp add: rows_distinct_iff)




subsection \<open>One partial transfer\<close>









subsection \<open>A new table\<close>

lemma expand_loop_rows:
  assumes "expand_loop n i v a = (i', v', a')"
  shows "\<exists>m. i' = i + m \<and> vec_buf v' = vec_buf v @ replicate m vec_new \<and> m \<le> n"
  using assms
proof (induction n arbitrary: i v a)
  case 0
  then show ?case by simp
next
  case (Suc n)
  obtain ok v1 a1 where p: "vec_push_back v vec_new a = (ok, v1, a1)"
    by (cases "vec_push_back v vec_new a") auto
  show ?case
  proof (cases ok)
    case False
    with Suc.prems p vec_push_back_cases(2)[OF p] show ?thesis
      by (intro exI[of _ 0]) simp
  next
    case True
    with Suc.prems p have "expand_loop n (i + 1) v1 a1 = (i', v', a')" by simp
    from Suc.IH[OF this] obtain m where
      m: "i' = i + 1 + m" "vec_buf v' = vec_buf v1 @ replicate m vec_new" "m \<le> n" by blast
    have "vec_buf v1 = vec_buf v @ [vec_new]" using vec_push_back_cases(1)[OF p] True by simp
    with m show ?thesis
      by (intro exI[of _ "Suc m"]) (simp add: replicate_app_Cons_same)
  qed
qed

lemma table_init_rows:
  fixes t :: "('k, 'v) table"
  assumes "table_init a p = (t, a')"
  shows "table_wf t" and "rows t = replicate (m_num_buckets t) []"
    and "m_total_entries t = 0"
proof -
  define p2 where "p2 = (if (if 32 \<le> p then 31 else p) < 4 then 4 else (if 32 \<le> p then 31 else p))"
  obtain n and v :: "('k, 'v) bucket vector" and a1 where
    e: "expand vec_new (get_prime_power_of_2 p2) a = (n, v, a1)"
    by (cases "expand (vec_new :: ('k, 'v) bucket vector) (get_prime_power_of_2 p2) a") auto
  have t: "t = \<lparr> m_buckets = v, m_total_entries = 0, m_num_buckets = n, m_power_of_2_size = p2 \<rparr>"
    using assms e by (simp add: table_init_def Let_def p2_def)
  obtain ok v0 a0 where r: "vec_reserve (vec_new :: ('k, 'v) bucket vector)
       (get_prime_power_of_2 p2) a = (ok, v0, a0)"
    by (cases "vec_reserve (vec_new :: ('k, 'v) bucket vector) (get_prime_power_of_2 p2) a") auto
  have l: "expand_loop (get_prime_power_of_2 p2) 0 v0 a0 = (n, v, a1)"
    using e r by (simp add: expand_def)
  have v0: "vec_buf v0 = []" using vec_reserve_cases(1)[OF r] by (simp add: vec_new_def)
  from expand_loop_rows[OF l] v0 have v: "vec_buf v = replicate n vec_new" by auto
  show "table_wf t" by (simp add: table_wf_def rows_def t v)
  show "rows t = replicate (m_num_buckets t) []" by (simp add: rows_def t v vec_new_def)
  show "m_total_entries t = 0" by (simp add: t)
qed



subsection \<open>The bookkeeping at the end of an operation\<close>

lemma begin_resize_cases:
  fixes m :: "('k, 'v) unordered_map"
  assumes "begin_resize m p = (ok, m')"
  shows "\<not> ok \<or>
         (\<exists>sec a. m' = m\<lparr> m_alloc := a, m_secondary := Some sec, m_state := TRANSFER,
                          m_current_bucket_to_transfer := 0 \<rparr>
                  \<and> table_wf sec \<and> rows sec = replicate (m_num_buckets sec) []
                  \<and> m_total_entries sec = 0
                  \<and> m_num_buckets sec = get_prime_power_of_2 p)"
proof (cases ok)
  case False
  then show ?thesis by simp
next
  case True
  obtain b a1 where al: "allocate (m_alloc m) = (b, a1)" by (cases "allocate (m_alloc m)") auto
  obtain sec :: "('k, 'v) table" and a2 where ti: "table_init a1 (p mod 256) = (sec, a2)"
    by (cases "table_init a1 (p mod 256) :: ('k, 'v) table \<times> allocator") auto
  from assms True al ti have b: b
    by (cases b) (auto simp: begin_resize_def)
  from assms True al ti b have
    "get_prime_power_of_2 p = m_num_buckets sec \<and>
     m' = m\<lparr> m_alloc := a2, m_secondary := Some sec, m_state := TRANSFER,
             m_current_bucket_to_transfer := 0 \<rparr>"
    by (auto simp: begin_resize_def Let_def split: if_splits)
  with table_init_rows[OF ti] show ?thesis by auto
qed

lemma resize_check_cases:
  assumes "resize_check m main failure rval = (r, m')"
  shows "(r = failure \<and> m_state m' = ERROR)
         \<or> (r = rval \<and> m' = m)
         \<or> (r = rval \<and>
             (\<exists>sec a. m' = m\<lparr> m_alloc := a, m_secondary := Some sec, m_state := TRANSFER,
                              m_current_bucket_to_transfer := 0 \<rparr>
                      \<and> table_wf sec \<and> rows sec = replicate (m_num_buckets sec) []
                      \<and> m_total_entries sec = 0
                      \<and> m_num_buckets sec = get_prime_power_of_2 (get_next_power_of_2 main)))"
proof (cases "should_resize m main")
  case False
  with assms show ?thesis by (simp add: resize_check_def)
next
  case True
  obtain ok m1 where b: "begin_resize m (get_next_power_of_2 main) = (ok, m1)"
    by (cases "begin_resize m (get_next_power_of_2 main)") auto
  show ?thesis
  proof (cases ok)
    case False
    with assms True b show ?thesis by (auto simp: resize_check_def)
  next
    case ok: True
    with assms True b have "r = rval" "m' = m1" by (simp_all add: resize_check_def)
    with begin_resize_cases[OF b] ok show ?thesis by auto
  qed
qed


lemma lookup_transfer:
  "m_state m = TRANSFER \<Longrightarrow> m_main m = Some main \<Longrightarrow> m_secondary m = Some sec \<Longrightarrow>
     lookup h m k = transfer_get h main sec k"
  by (simp add: lookup_def transfer_get_def)




subsection \<open>A \<open>put\<close> that returns false\<close>





lemma transfer_step_result:
  assumes "transfer_step h m failure rval = (r, m')"
  shows "(r = failure \<and> m_state m' = ERROR) \<or> r = rval"
proof -
  obtain ok m1 where p: "perform_partial_transfer h m = (ok, m1)"
    by (cases "perform_partial_transfer h m") auto
  with assms show ?thesis by (cases ok) (auto simp: transfer_step_def)
qed



lemma get_lookup:
  assumes "get h m k = (r, m')" "m_state m' \<noteq> ERROR"
  shows "r = lookup h m k"
proof (cases "m_state m")
  case ERROR
  with assms show ?thesis by (simp add: get_def)
next
  case STABLE
  show ?thesis
  proof (cases "m_main m")
    case None
    with assms STABLE show ?thesis by (simp add: get_def lookup_def)
  next
    case (Some main)
    with assms(1) STABLE have
      "resize_check m main None (table_get h main k) = (r, m')" by (simp add: get_def)
    from resize_check_cases[OF this] assms(2) have "r = table_get h main k" by auto
    with STABLE Some show ?thesis by (simp add: lookup_def)
  qed
next
  case TRANSFER
  show ?thesis
  proof (cases "m_main m")
    case None
    with assms TRANSFER show ?thesis by (simp add: get_def lookup_def)
  next
    case main: (Some main)
    show ?thesis
    proof (cases "m_secondary m")
      case None
      with assms TRANSFER main show ?thesis by (simp add: get_def lookup_def)
    next
      case (Some sec)
      with assms(1) TRANSFER main have
        "transfer_step h m None (transfer_get h main sec k) = (r, m')"
        by (simp add: get_def transfer_get_def Let_def)
      from transfer_step_result[OF this] assms(2) have "r = transfer_get h main sec k" by auto
      with TRANSFER main Some show ?thesis by (simp add: lookup_transfer)
    qed
  qed
qed






end
